theory Spec2Isabelle
  imports Main "HOL-Library.Monad_Syntax"
begin

section \<open>The engine of \<^verbatim>\<open>changes9.cpp\<close>: Hopcroft--Karp bipartite matching\<close>

text \<open>
  The class \<^verbatim>\<open>BipartiteGraph\<close> keeps two vertex counts, the adjacency lists of the left
  vertices and three integer vectors. Vertex ids, pair values and distances are never
  negative in the program (every stored value is 0, a vertex id that passed the bounds
  check of \<^verbatim>\<open>addEdge\<close>, a distance counted up from 0, or the constant \<^verbatim>\<open>INF\<close>),
  and no subtraction occurs, so they are natural numbers here. The arguments of
  \<^verbatim>\<open>addEdge\<close> come from the caller and may be negative: they are integers.

  A vector is a list. Reading or writing \<^verbatim>\<open>v[i]\<close> outside the vector is undefined in
  C++; here \<open>idx\<close> and \<open>upd\<close> return \<open>None\<close> there, and every function that indexes
  returns an option, \<open>None\<close> meaning that some index was out of bounds.
\<close>

definition INF_const :: nat where
  "INF_const = 1000000000"

record BipartiteGraph =
  nLeft :: nat
  nRight :: nat
  adj :: "nat list list"
  dist :: "nat list"
  pairU :: "nat list"
  pairV :: "nat list"

definition idx :: "'a list \<Rightarrow> nat \<Rightarrow> 'a option" where
  "idx xs i = (if i < length xs then Some (xs ! i) else None)"

definition upd :: "'a list \<Rightarrow> nat \<Rightarrow> 'a \<Rightarrow> 'a list option" where
  "upd xs i x = (if i < length xs then Some (xs[i := x]) else None)"

text \<open>The constructor: \<^verbatim>\<open>assign(nLeft + 1, ...)\<close> on each vector.\<close>

definition new_BipartiteGraph :: "nat \<Rightarrow> nat \<Rightarrow> BipartiteGraph" where
  "new_BipartiteGraph leftCount rightCount =
     \<lparr> nLeft = leftCount, nRight = rightCount,
       adj = replicate (leftCount + 1) [],
       dist = replicate (leftCount + 1) INF_const,
       pairU = replicate (leftCount + 1) 0,
       pairV = replicate (rightCount + 1) 0 \<rparr>"

subsection \<open>addEdge\<close>

text \<open>
  \<^verbatim>\<open>addEdge\<close> prints a warning and returns when an id is out of range; the object is
  untouched. The result is the warning, if any, and the engine after the call.
\<close>

datatype warning = InvalidEdge

definition addEdge :: "BipartiteGraph \<Rightarrow> int \<Rightarrow> int \<Rightarrow> (warning option \<times> BipartiteGraph) option" where
  "addEdge g u v =
     (if u < 1 \<or> u > int (nLeft g) \<or> v < 1 \<or> v > int (nRight g)
      then Some (Some InvalidEdge, g)
      else do {
        row \<leftarrow> idx (adj g) (nat u);
        a \<leftarrow> upd (adj g) (nat u) (row @ [nat v]);
        Some (None, g\<lparr>adj := a\<rparr>)
      })"

text \<open>The loop of \<^verbatim>\<open>main\<close> that feeds the edges, ignoring warnings.\<close>

fun addEdges :: "BipartiteGraph \<Rightarrow> (int \<times> int) list \<Rightarrow> BipartiteGraph option" where
  "addEdges g [] = Some g"
| "addEdges g (e # es) = do {
     (w, g') \<leftarrow> addEdge g (fst e) (snd e);
     addEdges g' es
   }"

subsection \<open>bfs: the layering pass\<close>

text \<open>The first loop of \<^verbatim>\<open>bfs\<close>, over \<open>u = 1, ..., nLeft\<close>; the queue is a list, pushed at its end.\<close>

fun bfs_init :: "BipartiteGraph \<Rightarrow> nat list \<Rightarrow> nat list \<Rightarrow> (BipartiteGraph \<times> nat list) option" where
  "bfs_init g q [] = Some (g, q)"
| "bfs_init g q (u # us) = do {
     pu \<leftarrow> idx (pairU g) u;
     if pu = 0 then do {
       d \<leftarrow> upd (dist g) u 0;
       bfs_init (g\<lparr>dist := d\<rparr>) (q @ [u]) us
     } else do {
       d \<leftarrow> upd (dist g) u INF_const;
       bfs_init (g\<lparr>dist := d\<rparr>) q us
     }
   }"

text \<open>The loop \<^verbatim>\<open>for (int v : adj[u])\<close> inside the while loop.\<close>

fun bfs_scan :: "BipartiteGraph \<Rightarrow> nat list \<Rightarrow> nat \<Rightarrow> nat list \<Rightarrow> (BipartiteGraph \<times> nat list) option" where
  "bfs_scan g q u [] = Some (g, q)"
| "bfs_scan g q u (v # vs) = do {
     w \<leftarrow> idx (pairV g) v;
     dw \<leftarrow> idx (dist g) w;
     if dw = INF_const then do {
       du \<leftarrow> idx (dist g) u;
       d \<leftarrow> upd (dist g) w (du + 1);
       bfs_scan (g\<lparr>dist := d\<rparr>) (q @ [w]) u vs
     } else bfs_scan g q u vs
   }"

text \<open>
  The while loop of \<^verbatim>\<open>bfs\<close> pops the front of the queue. It terminates from every
  state, by a lexicographic measure: the number of entries of \<open>dist\<close> that hold
  \<open>INF_const\<close>, then the number of queued vertices at distance \<open>INF_const - 1\<close>
  (the only ones whose scan can write \<open>INF_const\<close> again), then the length of the queue.
\<close>


definition cnt_inf :: "BipartiteGraph \<Rightarrow> nat" where
  "cnt_inf g = length (filter (\<lambda>d. d = INF_const) (dist g))"

definition cnt_pre :: "BipartiteGraph \<Rightarrow> nat list \<Rightarrow> nat" where
  "cnt_pre g q = length (filter (\<lambda>x. idx (dist g) x = Some (INF_const - 1)) q)"

lemma filter_update_le:
  "i < length xs \<Longrightarrow> P (xs ! i) \<Longrightarrow> length (filter P (xs[i := y])) \<le> length (filter P xs)"
proof (induction xs arbitrary: i)
  case Nil then show ?case by simp
next
  case (Cons x xs)
  then show ?case by (cases i) auto
qed

lemma filter_update_less:
  "i < length xs \<Longrightarrow> P (xs ! i) \<Longrightarrow> \<not> P y \<Longrightarrow> length (filter P (xs[i := y])) < length (filter P xs)"
proof (induction xs arbitrary: i)
  case Nil then show ?case by simp
next
  case (Cons x xs)
  then show ?case by (cases i) (auto simp: Suc_le_eq dest: less_imp_le)
qed

lemma bfs_scan_cnt_le:
  "bfs_scan g q u vs = Some (g', q') \<Longrightarrow> cnt_inf g' \<le> cnt_inf g"
proof (induction vs arbitrary: g q)
  case Nil then show ?case by simp
next
  case (Cons v vs)
  show ?case
  proof (cases "idx (pairV g) v")
    case None with Cons.prems show ?thesis by simp
  next
    case (Some w)
    show ?thesis
    proof (cases "idx (dist g) w = Some INF_const")
      case False
      with Cons Some show ?thesis by (auto simp: idx_def split: if_splits)
    next
      case True
      then have w: "w < length (dist g)" "dist g ! w = INF_const" by (auto simp: idx_def split: if_splits)
      from Cons.prems Some True obtain du where du: "idx (dist g) u = Some du" 
        and r: "bfs_scan (g\<lparr>dist := (dist g)[w := du + 1]\<rparr>) (q @ [w]) u vs = Some (g', q')"
        by (auto simp: upd_def w split: bind_splits)
      have "cnt_inf (g\<lparr>dist := (dist g)[w := du + 1]\<rparr>) \<le> cnt_inf g"
        unfolding cnt_inf_def using filter_update_le[of w "dist g" "\<lambda>d. d = INF_const"] w by simp
      with Cons.IH[OF r] show ?thesis by simp
    qed
  qed
qed


lemma INF_const_pos: "Suc (INF_const - Suc 0) = INF_const"
  by (simp add: INF_const_def)

lemma bfs_scan_progress:
  "bfs_scan g q u vs = Some (g', q') \<Longrightarrow> idx (dist g) u \<noteq> Some (INF_const - 1) \<Longrightarrow>
   (g' = g \<and> q' = q) \<or> cnt_inf g' < cnt_inf g"
proof (induction vs arbitrary: g q)
  case Nil then show ?case by simp
next
  case (Cons v vs)
  show ?case
  proof (cases "idx (pairV g) v")
    case None with Cons.prems show ?thesis by simp
  next
    case (Some w)
    show ?thesis
    proof (cases "idx (dist g) w = Some INF_const")
      case False
      with Cons Some show ?thesis by (auto simp: idx_def split: if_splits)
    next
      case True
      then have w: "w < length (dist g)" "dist g ! w = INF_const" by (auto simp: idx_def split: if_splits)
      from Cons.prems Some True obtain du where du: "idx (dist g) u = Some du" 
        and r: "bfs_scan (g\<lparr>dist := (dist g)[w := du + 1]\<rparr>) (q @ [w]) u vs = Some (g', q')"
        by (auto simp: upd_def w split: bind_splits)
      from du Cons.prems(2) have "du + 1 \<noteq> INF_const" by auto
      then have "cnt_inf (g\<lparr>dist := (dist g)[w := du + 1]\<rparr>) < cnt_inf g"
        unfolding cnt_inf_def using filter_update_less[of w "dist g" "\<lambda>d. d = INF_const" "du + 1"] w by simp
      with bfs_scan_cnt_le[OF r] show ?thesis by simp
    qed
  qed
qed

lemma bfs_scan_alias:
  "bfs_scan g q u vs = Some (g', q') \<Longrightarrow> idx (dist g) u = Some (INF_const - 1) \<Longrightarrow>
   g' = g \<and> (\<exists>ws. q' = q @ ws \<and> (\<forall>x\<in>set ws. idx (dist g) x = Some INF_const))"
proof (induction vs arbitrary: q)
  case Nil then show ?case by simp
next
  case (Cons v vs)
  show ?case
  proof (cases "idx (pairV g) v")
    case None with Cons.prems show ?thesis by simp
  next
    case (Some w)
    show ?thesis
    proof (cases "idx (dist g) w = Some INF_const")
      case False
      with Cons.prems Some have r: "bfs_scan g q u vs = Some (g', q')"
        by (auto simp: idx_def split: if_splits bind_splits)
      from Cons.IH[OF r Cons.prems(2)] show ?thesis .
    next
      case True
      then have w: "w < length (dist g)" "dist g ! w = INF_const" by (auto simp: idx_def split: if_splits)
      have same: "g\<lparr>dist := (dist g)[w := INF_const]\<rparr> = g"
        using w by (metis list_update_id BipartiteGraph.surjective BipartiteGraph.update_convs(4))
      from Cons.prems Some True same have r: "bfs_scan g (q @ [w]) u vs = Some (g', q')"
        by (simp add: upd_def w INF_const_pos)
      from Cons.IH[OF r Cons.prems(2)] True show ?thesis by auto
    qed
  qed
qed

function bfs_while :: "BipartiteGraph \<Rightarrow> nat list \<Rightarrow> BipartiteGraph option" where
  "bfs_while g [] = Some g"
| "bfs_while g (u # q) = do {
     du \<leftarrow> idx (dist g) u;
     d0 \<leftarrow> idx (dist g) 0;
     if du < d0 then do {
       vs \<leftarrow> idx (adj g) u;
       (g', q') \<leftarrow> bfs_scan g q u vs;
       bfs_while g' q'
     } else bfs_while g q
   }"
  by pat_completeness auto
termination
proof (relation "measures [\<lambda>(g, q). cnt_inf g, \<lambda>(g, q). cnt_pre g q, \<lambda>(g, q). length q]", goal_cases)
  case 1 show ?case by simp
next
  case (2 g u q du d0 vs x g' q')
  show ?case
  proof (cases "du = INF_const - 1")
    case True
    with 2 bfs_scan_alias[of g q u vs g' q'] show ?thesis
      by (auto simp: cnt_pre_def INF_const_def)
  next
    case False
    with 2 bfs_scan_progress[of g q u vs g' q'] show ?thesis
      by (auto simp: cnt_pre_def)
  qed
next
  case (3 g u q du d0)
  then show ?case by (auto simp: cnt_pre_def)
qed

definition bfs :: "BipartiteGraph \<Rightarrow> (bool \<times> BipartiteGraph) option" where
  "bfs g = do {
     (g1, q) \<leftarrow> bfs_init g [] [1..<Suc (nLeft g)];
     d \<leftarrow> upd (dist g1) 0 INF_const;
     g2 \<leftarrow> bfs_while (g1\<lparr>dist := d\<rparr>) q;
     d0 \<leftarrow> idx (dist g2) 0;
     Some (d0 \<noteq> INF_const, g2)
   }"

subsection \<open>dfs: the augmentation pass\<close>

text \<open>
  \<^verbatim>\<open>dfs\<close> is recursive, and nothing in its text bounds the depth, so the model takes
  the depth it may use: \<open>dfs n\<close> allows \<open>n\<close> nested calls on vertices other than 0 and
  answers \<open>Timeout\<close> when they are used up. \<open>dfs_for\<close> is the loop over \<open>adj[u]\<close>.
\<close>

datatype 'a outcome = Timeout | Done 'a

fun dfs :: "nat \<Rightarrow> BipartiteGraph \<Rightarrow> nat \<Rightarrow> (bool \<times> BipartiteGraph) outcome option"
  and dfs_for :: "nat \<Rightarrow> BipartiteGraph \<Rightarrow> nat \<Rightarrow> nat list \<Rightarrow> (bool \<times> BipartiteGraph) outcome option"
where
  "dfs n g u =
     (if u = 0 then Some (Done (True, g))
      else case n of
        0 \<Rightarrow> Some Timeout
      | Suc k \<Rightarrow> do { vs \<leftarrow> idx (adj g) u; dfs_for k g u vs })"
| "dfs_for k g u [] = do {
     d \<leftarrow> upd (dist g) u INF_const;
     Some (Done (False, g\<lparr>dist := d\<rparr>))
   }"
| "dfs_for k g u (v # vs) = do {
     w \<leftarrow> idx (pairV g) v;
     dw \<leftarrow> idx (dist g) w;
     du \<leftarrow> idx (dist g) u;
     if dw = du + 1 then do {
       r \<leftarrow> dfs k g w;
       case r of
         Timeout \<Rightarrow> Some Timeout
       | Done (found, g') \<Rightarrow>
           if found then do {
             pu \<leftarrow> upd (pairU g') u v;
             pv \<leftarrow> upd (pairV g') v u;
             Some (Done (True, g'\<lparr>pairU := pu, pairV := pv\<rparr>))
           } else dfs_for k g' u vs
     } else dfs_for k g u vs
   }"

subsection \<open>maxMatching\<close>

text \<open>The loop over \<open>u = 1, ..., nLeft\<close> of one phase; \<open>matching\<close> is the running count.\<close>

fun dfs_all :: "nat \<Rightarrow> BipartiteGraph \<Rightarrow> nat \<Rightarrow> nat list \<Rightarrow> (nat \<times> BipartiteGraph) outcome option" where
  "dfs_all n g matching [] = Some (Done (matching, g))"
| "dfs_all n g matching (u # us) = do {
     pu \<leftarrow> idx (pairU g) u;
     if pu = 0 then do {
       r \<leftarrow> dfs n g u;
       case r of
         Timeout \<Rightarrow> Some Timeout
       | Done (found, g') \<Rightarrow>
           if found then dfs_all n g' (matching + 1) us else dfs_all n g' matching us
     } else dfs_all n g matching us
   }"

text \<open>
  The loop \<^verbatim>\<open>while (bfs())\<close>: \<open>phases k n\<close> runs at most \<open>k\<close> phases, each with
  depth \<open>n\<close> for its searches.
\<close>

fun phases :: "nat \<Rightarrow> nat \<Rightarrow> BipartiteGraph \<Rightarrow> nat \<Rightarrow> (nat \<times> BipartiteGraph) outcome option" where
  "phases 0 n g matching = Some Timeout"
| "phases (Suc k) n g matching = do {
     (found, g1) \<leftarrow> bfs g;
     if found then do {
       r \<leftarrow> dfs_all n g1 matching [1..<Suc (nLeft g1)];
       case r of
         Timeout \<Rightarrow> Some Timeout
       | Done (matching', g2) \<Rightarrow> phases k n g2 matching'
     } else Some (Done (matching, g1))
   }"

definition maxMatching :: "nat \<Rightarrow> BipartiteGraph \<Rightarrow> (nat \<times> BipartiteGraph) outcome option" where
  "maxMatching fuel g = phases fuel fuel g 0"

subsection \<open>getMatchingPairs\<close>

fun collect_pairs :: "BipartiteGraph \<Rightarrow> (nat \<times> nat) list \<Rightarrow> nat list \<Rightarrow> (nat \<times> nat) list option" where
  "collect_pairs g result [] = Some result"
| "collect_pairs g result (u # us) = do {
     pu \<leftarrow> idx (pairU g) u;
     if pu \<noteq> 0 then collect_pairs g (result @ [(u, pu)]) us
     else collect_pairs g result us
   }"

definition getMatchingPairs :: "BipartiteGraph \<Rightarrow> (nat \<times> nat) list option" where
  "getMatchingPairs g = collect_pairs g [] [1..<Suc (nLeft g)]"

section \<open>Indexing\<close>

lemma idx_eq_Some: "idx xs i = Some y \<longleftrightarrow> i < length xs \<and> xs ! i = y"
  by (auto simp: idx_def)

lemma idx_eq_None: "idx xs i = None \<longleftrightarrow> length xs \<le> i"
  by (auto simp: idx_def)

lemma idx_in: "i < length xs \<Longrightarrow> idx xs i = Some (xs ! i)"
  by (simp add: idx_def)

lemma upd_eq_Some: "upd xs i x = Some ys \<longleftrightarrow> i < length xs \<and> ys = xs[i := x]"
  by (auto simp: upd_def)

lemma upd_eq_None: "upd xs i x = None \<longleftrightarrow> length xs \<le> i"
  by (auto simp: upd_def)

lemma upd_in: "i < length xs \<Longrightarrow> upd xs i x = Some (xs[i := x])"
  by (simp add: upd_def)

section \<open>Rejected edges\<close>

text \<open>
  C6. A call \<^verbatim>\<open>addEdge(u, v)\<close> with \<open>u\<close> outside \<open>[1, nLeft]\<close> or \<open>v\<close> outside
  \<open>[1, nRight]\<close> reports \<open>InvalidEdge\<close>, returns normally and leaves the engine exactly as
  it was: the adjacency lists, the pair vectors and everything else. So whatever is
  called next (further edges, the matching) behaves as if the call had not been made.
\<close>

theorem addEdge_invalid_unchanged:
  assumes "u < 1 \<or> int (nLeft g) < u \<or> v < 1 \<or> int (nRight g) < v"
  shows "addEdge g u v = Some (Some InvalidEdge, g)
         \<and> addEdges g ((u, v) # es) = addEdges g es"
  using assms by (auto simp: addEdge_def)

theorem addEdge_invalid_unchanged_witness:
  "addEdge (new_BipartiteGraph 2 2) 0 3 = Some (Some InvalidEdge, new_BipartiteGraph 2 2)
   \<and> addEdges (new_BipartiteGraph 2 2) [(0, 3), (1, 1)] = addEdges (new_BipartiteGraph 2 2) [(1, 1)]"
  using addEdge_invalid_unchanged [of 0 "new_BipartiteGraph 2 2" 3 "[(1, 1)]"]
  by (simp add: new_BipartiteGraph_def)

section \<open>The shape of an engine\<close>

text \<open>
  What the constructor establishes and every operation keeps: the four vectors have the
  sizes given at construction, every stored neighbour is a right vertex id, and every pair
  value is 0 or a vertex id of the other side.
\<close>

definition shape :: "BipartiteGraph \<Rightarrow> bool" where
  "shape g \<longleftrightarrow>
     length (adj g) = Suc (nLeft g) \<and> length (dist g) = Suc (nLeft g) \<and>
     length (pairU g) = Suc (nLeft g) \<and> length (pairV g) = Suc (nRight g) \<and>
     (\<forall>u\<le>nLeft g. \<forall>v\<in>set (adj g ! u). 1 \<le> v \<and> v \<le> nRight g) \<and>
     (\<forall>u\<le>nLeft g. pairU g ! u \<le> nRight g) \<and>
     (\<forall>v\<le>nRight g. pairV g ! v \<le> nLeft g)"

lemma shape_len:
  "shape g \<Longrightarrow> length (adj g) = Suc (nLeft g)"
  "shape g \<Longrightarrow> length (dist g) = Suc (nLeft g)"
  "shape g \<Longrightarrow> length (pairU g) = Suc (nLeft g)"
  "shape g \<Longrightarrow> length (pairV g) = Suc (nRight g)"
  by (auto simp: shape_def)

lemma shape_adj: "shape g \<Longrightarrow> u \<le> nLeft g \<Longrightarrow> v \<in> set (adj g ! u) \<Longrightarrow> 1 \<le> v \<and> v \<le> nRight g"
  by (auto simp: shape_def)

lemma shape_pairU: "shape g \<Longrightarrow> u \<le> nLeft g \<Longrightarrow> pairU g ! u \<le> nRight g"
  by (auto simp: shape_def)

lemma shape_pairV: "shape g \<Longrightarrow> v \<le> nRight g \<Longrightarrow> pairV g ! v \<le> nLeft g"
  by (auto simp: shape_def)

lemma shape_dist_update: "shape g \<Longrightarrow> length d = Suc (nLeft g) \<Longrightarrow> shape (g\<lparr>dist := d\<rparr>)"
  by (auto simp: shape_def)

lemma shape_new: "shape (new_BipartiteGraph l r)"
  by (auto simp: shape_def new_BipartiteGraph_def nth_Cons split: nat.splits)

lemma addEdge_shape:
  assumes "shape g" "addEdge g u v = Some (w, g')"
  shows "shape g'"
proof (cases "u < 1 \<or> int (nLeft g) < u \<or> v < 1 \<or> int (nRight g) < v")
  case True
  with assms show ?thesis by (auto simp: addEdge_def)
next
  case False
  then have u: "nat u \<le> nLeft g" "1 \<le> nat v" "nat v \<le> nRight g" by auto
  from assms False u have g': "g' = g\<lparr>adj := (adj g)[nat u := adj g ! nat u @ [nat v]]\<rparr>"
    by (auto simp: addEdge_def idx_eq_Some upd_eq_Some split: bind_splits)
  show ?thesis
    unfolding g' using assms(1) u
    by (auto simp: shape_def nth_list_update)
qed

lemma addEdge_total: "shape g \<Longrightarrow> \<exists>w g'. addEdge g u v = Some (w, g')"
  by (auto simp: addEdge_def shape_def idx_def upd_def)

lemma addEdges_shape: "shape g \<Longrightarrow> \<exists>g'. addEdges g es = Some g' \<and> shape g'"
proof (induction es arbitrary: g)
  case Nil then show ?case by simp
next
  case (Cons e es)
  from addEdge_total[OF Cons.prems] obtain w g1 where a: "addEdge g (fst e) (snd e) = Some (w, g1)"
    by blast
  from addEdge_shape[OF Cons.prems a] Cons.IH[of g1] a show ?case by simp
qed

section \<open>The layering pass\<close>

declare upt_Suc [simp del]

subsection \<open>What the first loop leaves\<close>

definition dist_init :: "BipartiteGraph \<Rightarrow> nat list" where
  "dist_init g =
     map (\<lambda>x. if x = 0 then INF_const else if pairU g ! x = 0 then 0 else INF_const)
       [0..<Suc (nLeft g)]"

definition free_queue :: "BipartiteGraph \<Rightarrow> nat list" where
  "free_queue g = filter (\<lambda>u. pairU g ! u = 0) [1..<Suc (nLeft g)]"

lemma bfs_init_eq:
  "\<forall>u\<in>set us. u < length (dist g) \<and> u < length (pairU g) \<Longrightarrow>
   bfs_init g q us =
     Some (g\<lparr>dist := map (\<lambda>x. if x \<in> set us then (if pairU g ! x = 0 then 0 else INF_const)
                              else dist g ! x) [0..<length (dist g)]\<rparr>,
           q @ filter (\<lambda>u. pairU g ! u = 0) us)"
proof (induction us arbitrary: g q)
  case Nil
  then show ?case by (simp add: map_nth)
next
  case (Cons u us)
  define c where "c = (if pairU g ! u = 0 then 0 else INF_const)"
  define g1 where "g1 = g\<lparr>dist := (dist g)[u := c]\<rparr>"
  from Cons.prems have u: "u < length (dist g)" "u < length (pairU g)" by auto
  have pre: "\<forall>x\<in>set us. x < length (dist g1) \<and> x < length (pairU g1)"
    using Cons.prems by (simp add: g1_def)
  have eq: "map (\<lambda>x. if x \<in> set us then (if pairU g1 ! x = 0 then 0 else INF_const)
                     else dist g1 ! x) [0..<length (dist g1)]
          = map (\<lambda>x. if x \<in> set (u # us) then (if pairU g ! x = 0 then 0 else INF_const)
                     else dist g ! x) [0..<length (dist g)]"
    by (rule nth_equalityI) (auto simp: g1_def c_def nth_list_update)
  have step: "bfs_init g q (u # us) =
      bfs_init g1 (if pairU g ! u = 0 then q @ [u] else q) us"
    using u by (simp add: idx_in upd_in g1_def c_def)
  show ?case
    unfolding step Cons.IH[OF pre] eq by (simp add: g1_def)
qed

lemma bfs_unfold:
  assumes "shape g"
  shows "bfs g = do {
           g2 \<leftarrow> bfs_while (g\<lparr>dist := dist_init g\<rparr>) (free_queue g);
           d0 \<leftarrow> idx (dist g2) 0;
           Some (d0 \<noteq> INF_const, g2)
         }"
proof -
  have pre: "\<forall>u\<in>set [1..<Suc (nLeft g)]. u < length (dist g) \<and> u < length (pairU g)"
    using assms by (auto simp: shape_len)
  have eq: "(map (\<lambda>x. if x \<in> set [1..<Suc (nLeft g)] then (if pairU g ! x = 0 then 0 else INF_const)
                     else dist g ! x) [0..<length (dist g)])[0 := INF_const] = dist_init g"
    using assms by (intro nth_equalityI) (auto simp: dist_init_def shape_len nth_list_update)
  show ?thesis
    unfolding bfs_def bfs_init_eq[OF pre]
    using assms eq by (simp add: upd_def free_queue_def shape_len)
qed

text \<open>The pass reads nothing of the distances it finds at its start.\<close>

lemma bfs_dist_irrelevant:
  assumes "shape g" "length d = Suc (nLeft g)"
  shows "bfs (g\<lparr>dist := d\<rparr>) = bfs g"
proof -
  have "dist_init (g\<lparr>dist := d\<rparr>) = dist_init g" "free_queue (g\<lparr>dist := d\<rparr>) = free_queue g"
    by (simp_all add: dist_init_def free_queue_def cong: if_cong)
  with assms show ?thesis
    by (simp add: bfs_unfold shape_dist_update)
qed

subsection \<open>The scan of one adjacency list\<close>

lemma bfs_scan_safe:
  assumes "u < length (dist g)" "\<forall>v\<in>set vs. v < length (pairV g)"
    "\<forall>v<length (pairV g). pairV g ! v < length (dist g)"
  shows "\<exists>g' q'. bfs_scan g q u vs = Some (g', q')"
  using assms
proof (induction vs arbitrary: g q)
  case Nil
  then show ?case by simp
next
  case (Cons v vs)
  let ?w = "pairV g ! v"
  from Cons.prems have v: "v < length (pairV g)" and w: "?w < length (dist g)" by auto
  show ?case
  proof (cases "dist g ! ?w = INF_const")
    case False
    with Cons v w show ?thesis by (simp add: idx_in)
  next
    case True
    let ?g1 = "g\<lparr>dist := (dist g)[?w := dist g ! u + 1]\<rparr>"
    have "\<exists>g' q'. bfs_scan ?g1 (q @ [?w]) u vs = Some (g', q')"
      using Cons.prems by (intro Cons.IH) auto
    with True Cons.prems v w show ?thesis by (simp add: idx_in upd_in)
  qed
qed

text \<open>
  The scan of \<open>adj[u]\<close> for a vertex \<open>u\<close> whose distance \<open>du\<close> is not \<open>INF_const\<close>: only
  \<open>dist\<close> changes; an entry changes only from \<open>INF_const\<close> to \<open>du + 1\<close>, and exactly the
  changed vertices are pushed.
\<close>

lemma bfs_scan_spec:
  assumes "bfs_scan g q u vs = Some (g', q')"
    and "u < length (dist g)" "dist g ! u = du" "du \<noteq> INF_const"
  shows "\<exists>d ws. g' = g\<lparr>dist := d\<rparr> \<and> length d = length (dist g) \<and> q' = q @ ws \<and> d ! u = du \<and>
     (\<forall>x<length d. d ! x = dist g ! x \<or> (dist g ! x = INF_const \<and> d ! x = du + 1 \<and> x \<in> set ws)) \<and>
     (\<forall>w\<in>set ws. w < length d \<and> dist g ! w = INF_const \<and> d ! w = du + 1 \<and>
                  (\<exists>v\<in>set vs. pairV g ! v = w)) \<and>
     (\<forall>v\<in>set vs. d ! (pairV g ! v) \<noteq> INF_const \<or> du + 1 = INF_const)"
  using assms
proof (induction vs arbitrary: g q)
  case Nil
  then show ?case
    by (intro exI[of _ "dist g"] exI[of _ "[]"]) simp
next
  case (Cons v vs)
  let ?w = "pairV g ! v"
  from Cons.prems(1) have v: "v < length (pairV g)" and w: "?w < length (dist g)"
    by (auto simp: idx_eq_Some split: bind_splits)
  show ?case
  proof (cases "dist g ! ?w = INF_const")
    case False
    with Cons.prems v w have r: "bfs_scan g q u vs = Some (g', q')" by (simp add: idx_in)
    from Cons.IH[OF r Cons.prems(2-4)] obtain d ws where
      IH: "g' = g\<lparr>dist := d\<rparr>" "length d = length (dist g)" "q' = q @ ws" "d ! u = du"
        "\<forall>x<length d. d ! x = dist g ! x \<or> (dist g ! x = INF_const \<and> d ! x = du + 1 \<and> x \<in> set ws)"
        "\<forall>w\<in>set ws. w < length d \<and> dist g ! w = INF_const \<and> d ! w = du + 1 \<and>
                  (\<exists>v\<in>set vs. pairV g ! v = w)"
        "\<forall>v\<in>set vs. d ! (pairV g ! v) \<noteq> INF_const \<or> du + 1 = INF_const"
      by blast
    from IH(2,5) w False have "d ! ?w \<noteq> INF_const" by metis
    with IH show ?thesis
      by (intro exI[of _ d] exI[of _ ws]) auto
  next
    case True
    define g1 where "g1 = g\<lparr>dist := (dist g)[?w := du + 1]\<rparr>"
    from True Cons.prems have uw: "u \<noteq> ?w" by auto
    from True Cons.prems v w have r: "bfs_scan g1 (q @ [?w]) u vs = Some (g', q')"
      by (simp add: idx_in upd_in g1_def)
    have p: "u < length (dist g1)" "dist g1 ! u = du"
      using Cons.prems uw by (auto simp: g1_def)
    from Cons.IH[OF r p Cons.prems(4)] obtain d ws where
      IH: "g' = g1\<lparr>dist := d\<rparr>" "length d = length (dist g1)" "q' = (q @ [?w]) @ ws" "d ! u = du"
        "\<forall>x<length d. d ! x = dist g1 ! x \<or> (dist g1 ! x = INF_const \<and> d ! x = du + 1 \<and> x \<in> set ws)"
        "\<forall>w\<in>set ws. w < length d \<and> dist g1 ! w = INF_const \<and> d ! w = du + 1 \<and>
                  (\<exists>v\<in>set vs. pairV g1 ! v = w)"
        "\<forall>v\<in>set vs. d ! (pairV g1 ! v) \<noteq> INF_const \<or> du + 1 = INF_const"
      by blast
    have g1_nth: "\<And>x. x < length (dist g) \<Longrightarrow> dist g1 ! x = (if x = ?w then du + 1 else dist g ! x)"
      by (simp add: g1_def nth_list_update)
    have len: "length d = length (dist g)" using IH(2) by (simp add: g1_def)
    have dw: "d ! ?w = du + 1"
      using IH(5) w len g1_nth by (metis)
    have c4: "\<forall>x<length d. d ! x = dist g ! x \<or>
               (dist g ! x = INF_const \<and> d ! x = du + 1 \<and> x \<in> set (?w # ws))"
    proof (intro allI impI)
      fix x assume x: "x < length d"
      show "d ! x = dist g ! x \<or> (dist g ! x = INF_const \<and> d ! x = du + 1 \<and> x \<in> set (?w # ws))"
      proof (cases "x = ?w")
        case True
        with dw \<open>dist g ! ?w = INF_const\<close> show ?thesis by simp
      next
        case False
        with IH(5) x len g1_nth[of x] show ?thesis by auto
      qed
    qed
    have c5: "\<forall>w\<in>set (?w # ws). w < length d \<and> dist g ! w = INF_const \<and> d ! w = du + 1 \<and>
                  (\<exists>v\<in>set (v # vs). pairV g ! v = w)"
    proof
      fix x assume x: "x \<in> set (?w # ws)"
      show "x < length d \<and> dist g ! x = INF_const \<and> d ! x = du + 1 \<and>
                  (\<exists>v\<in>set (v # vs). pairV g ! v = x)"
      proof (cases "x = ?w")
        case True
        with dw w len \<open>dist g ! ?w = INF_const\<close> show ?thesis by simp
      next
        case False
        with x have xs: "x \<in> set ws" by simp
        with IH(6) have "x < length d" "dist g1 ! x = INF_const" "d ! x = du + 1"
          "\<exists>v\<in>set vs. pairV g1 ! v = x" by auto
        with False len g1_nth[of x] show ?thesis by (auto simp: g1_def)
      qed
    qed
    have c6: "\<forall>v'\<in>set (v # vs). d ! (pairV g ! v') \<noteq> INF_const \<or> du + 1 = INF_const"
      using IH(7) dw by (auto simp: g1_def)
    show ?thesis
      using IH(1,3,4) len c4 c5 c6
      by (intro exI[of _ d] exI[of _ "?w # ws"]) (simp add: g1_def)
  qed
qed

subsection \<open>The queue loop\<close>

lemma bfs_while_rule:
  assumes "bfs_while g q = Some g'" and "P g q"
    and scan: "\<And>g u q vs g1 q1. P g (u # q) \<Longrightarrow> u < length (dist g) \<Longrightarrow> 0 < length (dist g) \<Longrightarrow>
        dist g ! u < dist g ! 0 \<Longrightarrow> u < length (adj g) \<Longrightarrow>
        bfs_scan g q u (adj g ! u) = Some (g1, q1) \<Longrightarrow> P g1 q1"
    and skip: "\<And>g u q. P g (u # q) \<Longrightarrow> u < length (dist g) \<Longrightarrow> 0 < length (dist g) \<Longrightarrow>
        \<not> dist g ! u < dist g ! 0 \<Longrightarrow> P g q"
  shows "P g' []"
  using assms(1,2)
proof (induction g q rule: bfs_while.induct)
  case (1 g)
  then show ?case by simp
next
  case (2 g u q)
  from "2.prems"(1) have u: "u < length (dist g)" and z: "0 < length (dist g)"
    by (auto simp: idx_eq_Some split: bind_splits)
  show ?case
  proof (cases "dist g ! u < dist g ! 0")
    case True
    with "2.prems"(1) u z obtain g1 q1 where
      a: "u < length (adj g)" and s: "bfs_scan g q u (adj g ! u) = Some (g1, q1)"
      and w: "bfs_while g1 q1 = Some g'"
      by (auto simp: idx_in idx_eq_Some split: bind_splits)
    have "P g1 q1" by (rule scan[OF "2.prems"(2) u z True a s])
    with "2.IH"(1)[OF idx_in[OF u] idx_in[OF z] True idx_in[OF a] s refl w] show ?thesis .
  next
    case False
    with "2.prems"(1) u z have w: "bfs_while g q = Some g'" by (simp add: idx_in)
    have "P g q" by (rule skip[OF "2.prems"(2) u z False])
    with "2.IH"(2)[OF idx_in[OF u] idx_in[OF z] False w] show ?thesis .
  qed
qed

lemma bfs_scan_shape:
  assumes "bfs_scan g q u vs = Some (g1, q1)" "shape g" "\<forall>x\<in>set q. x \<le> nLeft g"
  shows "shape g1 \<and> (\<forall>x\<in>set q1. x \<le> nLeft g1)"
  using assms
proof (induction vs arbitrary: g q)
  case Nil
  then show ?case by simp
next
  case (Cons v vs)
  let ?w = "pairV g ! v"
  from Cons.prems(1) have v: "v < length (pairV g)" and w: "?w < length (dist g)"
    by (auto simp: idx_eq_Some split: bind_splits)
  show ?case
  proof (cases "dist g ! ?w = INF_const")
    case False
    with Cons.prems v w have r: "bfs_scan g q u vs = Some (g1, q1)" by (simp add: idx_in)
    from Cons.IH[OF r Cons.prems(2,3)] show ?thesis .
  next
    case True
    let ?g = "g\<lparr>dist := (dist g)[?w := dist g ! u + 1]\<rparr>"
    from True Cons.prems(1) v w have r: "bfs_scan ?g (q @ [?w]) u vs = Some (g1, q1)"
      by (auto simp: idx_in upd_in idx_eq_Some split: bind_splits)
    have "shape ?g" using Cons.prems(2) by (simp add: shape_dist_update shape_len)
    moreover have "\<forall>x\<in>set (q @ [?w]). x \<le> nLeft ?g"
      using Cons.prems(2,3) w by (auto simp: shape_len)
    ultimately show ?thesis using Cons.IH[OF r] by blast
  qed
qed

lemma bfs_while_safe:
  assumes "shape g" "\<forall>x\<in>set q. x \<le> nLeft g"
  shows "\<exists>g'. bfs_while g q = Some g'"
  using assms
proof (induction g q rule: bfs_while.induct)
  case (1 g)
  then show ?case by simp
next
  case (2 g u q)
  from "2.prems" have u: "u < length (dist g)" "0 < length (dist g)" "u < length (adj g)"
    by (auto simp: shape_len)
  show ?case
  proof (cases "dist g ! u < dist g ! 0")
    case True
    have "\<exists>g1 q1. bfs_scan g q u (adj g ! u) = Some (g1, q1)"
      using "2.prems" u
      by (intro bfs_scan_safe) (auto simp: shape_len dest: shape_adj shape_pairV simp: less_Suc_eq_le)
    then obtain g1 q1 where s: "bfs_scan g q u (adj g ! u) = Some (g1, q1)" by blast
    from bfs_scan_shape[OF s "2.prems"(1)] "2.prems"(2)
    have "shape g1" "\<forall>x\<in>set q1. x \<le> nLeft g1" by auto
    then have "\<exists>g'. bfs_while g1 q1 = Some g'"
      using "2.IH"(1)[OF idx_in[OF u(1)] idx_in[OF u(2)] True idx_in[OF u(3)] s refl] by blast
    with True u s show ?thesis by (simp add: idx_in)
  next
    case False
    with "2.IH"(2)[OF idx_in[OF u(1)] idx_in[OF u(2)] False] "2.prems" u
    show ?thesis by (simp add: idx_in)
  qed
qed

subsection \<open>Layers\<close>

text \<open>
  Three facts hold of the distances all through the queue loop, whatever the size of the
  graph: no entry exceeds \<open>INF_const\<close>; a vertex at distance 0 is a free left vertex;
  and a vertex at any other distance below \<open>INF_const\<close> was reached over an edge from a
  left vertex one layer nearer.
\<close>

definition dist_le :: "BipartiteGraph \<Rightarrow> bool" where
  "dist_le g \<longleftrightarrow> (\<forall>x\<le>nLeft g. dist g ! x \<le> INF_const)"

definition zero_free :: "BipartiteGraph \<Rightarrow> bool" where
  "zero_free g \<longleftrightarrow>
     dist g ! 0 \<noteq> 0 \<and> (\<forall>x. 1 \<le> x \<and> x \<le> nLeft g \<longrightarrow> (dist g ! x = 0 \<longleftrightarrow> pairU g ! x = 0))"

definition layered :: "BipartiteGraph \<Rightarrow> bool" where
  "layered g \<longleftrightarrow>
     (\<forall>x\<le>nLeft g. dist g ! x \<noteq> INF_const \<longrightarrow> dist g ! x \<noteq> 0 \<longrightarrow>
        (\<exists>y v. 1 \<le> y \<and> y \<le> nLeft g \<and> v \<in> set (adj g ! y) \<and> pairV g ! v = x \<and>
               dist g ! y + 1 = dist g ! x))"

definition bfs_inv :: "BipartiteGraph \<Rightarrow> nat list \<Rightarrow> bool" where
  "bfs_inv g q \<longleftrightarrow>
     shape g \<and> (\<forall>x\<in>set q. x \<le> nLeft g) \<and> dist_le g \<and> zero_free g \<and> layered g"

lemma INF_const_nonzero: "INF_const \<noteq> 0" "0 < INF_const"
  by (simp_all add: INF_const_def)

lemma dist_init_nth:
  "x \<le> nLeft g \<Longrightarrow>
   dist_init g ! x = (if x = 0 then INF_const else if pairU g ! x = 0 then 0 else INF_const)"
  unfolding dist_init_def by (simp add: less_Suc_eq_le del: upt_Suc)

lemma length_dist_init: "length (dist_init g) = Suc (nLeft g)"
  by (simp add: dist_init_def)

lemma bfs_inv_init:
  assumes "shape g"
  shows "bfs_inv (g\<lparr>dist := dist_init g\<rparr>) (free_queue g)"
  unfolding bfs_inv_def
proof (intro conjI)
  show "shape (g\<lparr>dist := dist_init g\<rparr>)"
    using assms by (simp add: shape_dist_update length_dist_init)
  show "\<forall>x\<in>set (free_queue g). x \<le> nLeft (g\<lparr>dist := dist_init g\<rparr>)"
    by (auto simp: free_queue_def)
  show "dist_le (g\<lparr>dist := dist_init g\<rparr>)"
    by (simp add: dist_le_def dist_init_nth)
  show "zero_free (g\<lparr>dist := dist_init g\<rparr>)"
    using INF_const_nonzero by (simp add: zero_free_def dist_init_nth)
  show "layered (g\<lparr>dist := dist_init g\<rparr>)"
    by (simp add: layered_def dist_init_nth)
qed

lemma bfs_inv_scan:
  assumes inv: "bfs_inv g (u # q)"
    and lt: "dist g ! u < dist g ! 0"
    and s: "bfs_scan g q u (adj g ! u) = Some (g1, q1)"
  shows "bfs_inv g1 q1 \<and> (\<exists>d. g1 = g\<lparr>dist := d\<rparr>)"
proof -
  let ?n = "nLeft g"
  let ?du = "dist g ! u"
  from inv have sh: "shape g" and qn: "\<forall>x\<in>set q. x \<le> ?n" and un: "u \<le> ?n"
    and le: "dist_le g" and zf: "zero_free g" and ly: "layered g"
    by (auto simp: bfs_inv_def)
  have len: "length (dist g) = Suc ?n" using sh by (simp add: shape_len)
  from le have d0: "dist g ! 0 \<le> INF_const" by (simp add: dist_le_def)
  with lt have du: "?du \<noteq> INF_const" "?du < INF_const" by auto
  have u0: "u \<noteq> 0"
  proof
    assume "u = 0"
    with lt show False by simp
  qed
  from bfs_scan_spec[OF s _ refl du(1)] un len obtain d ws where
    g1: "g1 = g\<lparr>dist := d\<rparr>" and ld: "length d = Suc ?n" and q1: "q1 = q @ ws" and
    c4: "\<forall>x<length d. d ! x = dist g ! x \<or> (dist g ! x = INF_const \<and> d ! x = ?du + 1 \<and> x \<in> set ws)" and
    c5: "\<forall>w\<in>set ws. w < length d \<and> dist g ! w = INF_const \<and> d ! w = ?du + 1 \<and>
                  (\<exists>v\<in>set (adj g ! u). pairV g ! v = w)" and
    du': "d ! u = ?du"
    by auto
  have c4': "\<And>x. x \<le> ?n \<Longrightarrow> d ! x = dist g ! x \<or> (dist g ! x = INF_const \<and> d ! x = ?du + 1 \<and> x \<in> set ws)"
    using c4 ld by (simp add: less_Suc_eq_le)
  have "shape g1" using sh ld by (simp add: g1 shape_dist_update)
  moreover have "\<forall>x\<in>set q1. x \<le> nLeft g1"
    using qn c5 ld by (auto simp: q1 g1 less_Suc_eq_le)
  moreover have "dist_le g1"
    unfolding dist_le_def
  proof (intro allI impI)
    fix x assume "x \<le> nLeft g1"
    then have x: "x \<le> ?n" by (simp add: g1)
    from c4'[OF x] le x du show "dist g1 ! x \<le> INF_const"
      by (auto simp: g1 dist_le_def)
  qed
  moreover have "zero_free g1"
    unfolding zero_free_def
  proof (intro conjI allI impI)
    from c4'[of 0] zf show "dist g1 ! 0 \<noteq> 0" by (auto simp: g1 zero_free_def)
  next
    fix x assume "1 \<le> x \<and> x \<le> nLeft g1"
    then have x: "1 \<le> x" "x \<le> ?n" by (simp_all add: g1)
    from zf x have z: "dist g ! x = 0 \<longleftrightarrow> pairU g ! x = 0" by (simp add: zero_free_def)
    from c4'[OF x(2)] z INF_const_nonzero show "dist g1 ! x = 0 \<longleftrightarrow> pairU g1 ! x = 0"
      by (auto simp: g1)
  qed
  moreover have "layered g1"
    unfolding layered_def
  proof (intro allI impI)
    fix x assume "x \<le> nLeft g1" and fin: "dist g1 ! x \<noteq> INF_const" and nz: "dist g1 ! x \<noteq> 0"
    then have x: "x \<le> ?n" by (simp add: g1)
    from c4'[OF x] consider (same) "d ! x = dist g ! x"
      | (new) "dist g ! x = INF_const" "d ! x = ?du + 1" "x \<in> set ws" by blast
    then show "\<exists>y v. 1 \<le> y \<and> y \<le> nLeft g1 \<and> v \<in> set (adj g1 ! y) \<and> pairV g1 ! v = x \<and>
               dist g1 ! y + 1 = dist g1 ! x"
    proof cases
      case same
      with fin nz ly x obtain y v where
        y: "1 \<le> y" "y \<le> ?n" "v \<in> set (adj g ! y)" "pairV g ! v = x" "dist g ! y + 1 = dist g ! x"
        unfolding layered_def g1 by auto
      from le x have "dist g ! x \<le> INF_const" by (simp add: dist_le_def)
      with y(5) have "dist g ! y \<noteq> INF_const" by auto
      with c4'[OF y(2)] have "d ! y = dist g ! y" by auto
      with y same show ?thesis
        by (intro exI[of _ y] exI[of _ v]) (simp add: g1)
    next
      case new
      with c5 obtain v where "v \<in> set (adj g ! u)" "pairV g ! v = x" by auto
      with new du' un u0 show ?thesis
        by (intro exI[of _ u] exI[of _ v]) (simp add: g1)
    qed
  qed
  ultimately show ?thesis by (auto simp: bfs_inv_def g1)
qed

lemma bfs_inv_skip: "bfs_inv g (u # q) \<Longrightarrow> bfs_inv g q"
  by (simp add: bfs_inv_def)

lemma bfs_while_inv:
  assumes "bfs_while g q = Some g'" "bfs_inv g q"
  shows "bfs_inv g' [] \<and> (\<exists>d. g' = g\<lparr>dist := d\<rparr>)"
proof -
  define P where "P = (\<lambda>h (r :: nat list). bfs_inv h r \<and> (\<exists>d. h = g\<lparr>dist := d\<rparr>))"
  have "P g' []"
  proof (rule bfs_while_rule[OF assms(1), of P])
    show "P g q" using assms(2) by (auto simp: P_def intro: exI[of _ "dist g"])
  next
    fix h u r vs h1 r1
    assume "P h (u # r)" "dist h ! u < dist h ! 0" "bfs_scan h r u (adj h ! u) = Some (h1, r1)"
    with bfs_inv_scan[of h u r h1 r1] show "P h1 r1" by (auto simp: P_def)
  next
    fix h u r assume "P h (u # r)"
    then show "P h r" by (auto simp: P_def dest: bfs_inv_skip)
  qed
  then show ?thesis by (simp add: P_def)
qed

text \<open>The layering pass, from any engine of the right shape.\<close>

lemma bfs_total: "shape g \<Longrightarrow> \<exists>found g'. bfs g = Some (found, g')"
proof -
  assume sh: "shape g"
  from bfs_inv_init[OF sh] have inv: "bfs_inv (g\<lparr>dist := dist_init g\<rparr>) (free_queue g)" .
  then obtain g2 where w: "bfs_while (g\<lparr>dist := dist_init g\<rparr>) (free_queue g) = Some g2"
    using bfs_while_safe[of "g\<lparr>dist := dist_init g\<rparr>" "free_queue g"] by (auto simp: bfs_inv_def)
  from bfs_while_inv[OF w inv] have "shape g2" by (simp add: bfs_inv_def)
  with w sh show ?thesis by (simp add: bfs_unfold idx_in shape_len)
qed

lemma bfs_post:
  assumes "shape g" "bfs g = Some (found, g')"
  shows "(\<exists>d. g' = g\<lparr>dist := d\<rparr>) \<and> shape g' \<and> dist_le g' \<and> zero_free g' \<and> layered g' \<and>
         (found \<longleftrightarrow> dist g' ! 0 \<noteq> INF_const)"
proof -
  from assms obtain g2 where w: "bfs_while (g\<lparr>dist := dist_init g\<rparr>) (free_queue g) = Some g2"
    and r: "idx (dist g2) 0 \<bind> (\<lambda>d0. Some (d0 \<noteq> INF_const, g2)) = Some (found, g')"
    by (auto simp: bfs_unfold split: bind_splits)
  from bfs_while_inv[OF w bfs_inv_init[OF assms(1)]]
  have inv: "bfs_inv g2 []" and fr: "\<exists>d. g2 = g\<lparr>dist := d\<rparr>" by auto
  from r have "g' = g2" "found \<longleftrightarrow> dist g2 ! 0 \<noteq> INF_const"
    by (auto simp: idx_eq_Some split: bind_splits)
  with inv fr show ?thesis by (auto simp: bfs_inv_def)
qed

subsection \<open>Layer numbers are bounded by the number of left vertices\<close>

lemma layer_chain:
  assumes "dist_le g" "layered g"
  shows "x \<le> nLeft g \<Longrightarrow> dist g ! x = d \<Longrightarrow> d \<noteq> INF_const \<Longrightarrow> k < d \<Longrightarrow>
         \<exists>z. 1 \<le> z \<and> z \<le> nLeft g \<and> dist g ! z = k"
proof (induction d arbitrary: x)
  case 0
  then show ?case by simp
next
  case (Suc d)
  from assms(2) Suc.prems obtain y where
    y: "1 \<le> y" "y \<le> nLeft g" "dist g ! y + 1 = dist g ! x"
    unfolding layered_def by (metis nat.distinct(1))
  with Suc.prems have dy: "dist g ! y = d" by simp
  from assms(1) Suc.prems have "Suc d \<le> INF_const" by (auto simp: dist_le_def)
  then have fin: "d \<noteq> INF_const" by auto
  show ?case
  proof (cases "k = d")
    case True
    with y dy show ?thesis by blast
  next
    case False
    with Suc.prems have "k < d" by simp
    from Suc.IH[OF y(2) dy fin this] show ?thesis .
  qed
qed

lemma layer_bound_left:
  assumes "dist_le g" "layered g" "1 \<le> x" "x \<le> nLeft g" "dist g ! x \<noteq> INF_const"
  shows "dist g ! x < nLeft g"
proof -
  let ?f = "\<lambda>z. dist g ! z"
  have "{0..dist g ! x} \<subseteq> ?f ` {1..nLeft g}"
  proof
    fix k assume "k \<in> {0..dist g ! x}"
    then have "k = dist g ! x \<or> k < dist g ! x" by auto
    then show "k \<in> ?f ` {1..nLeft g}"
    proof
      assume "k = dist g ! x"
      with assms(3,4) show ?thesis by auto
    next
      assume "k < dist g ! x"
      from layer_chain[OF assms(1,2,4) refl assms(5) this] show ?thesis by auto
    qed
  qed
  then have "card {0..dist g ! x} \<le> card (?f ` {1..nLeft g})"
    by (intro card_mono) auto
  also have "\<dots> \<le> card {1..nLeft g}" by (rule card_image_le) simp
  finally show ?thesis by simp
qed

lemma layer_bound_zero:
  assumes "dist_le g" "layered g" "dist g ! 0 \<noteq> INF_const"
  shows "dist g ! 0 \<le> nLeft g"
proof -
  let ?f = "\<lambda>z. dist g ! z"
  have "{0..<dist g ! 0} \<subseteq> ?f ` {1..nLeft g}"
  proof
    fix k assume "k \<in> {0..<dist g ! 0}"
    then have "k < dist g ! 0" by simp
    from layer_chain[OF assms(1,2) _ refl assms(3) this] show "k \<in> ?f ` {1..nLeft g}" by auto
  qed
  then have "card {0..<dist g ! 0} \<le> card (?f ` {1..nLeft g})"
    by (intro card_mono) auto
  also have "\<dots> \<le> card {1..nLeft g}" by (rule card_image_le) simp
  finally show ?thesis by simp
qed

definition dist_ok :: "BipartiteGraph \<Rightarrow> bool" where
  "dist_ok g \<longleftrightarrow> (\<forall>x\<le>nLeft g. dist g ! x \<le> nLeft g \<or> dist g ! x = INF_const)"

lemma layered_dist_ok:
  assumes "dist_le g" "layered g"
  shows "dist_ok g"
  unfolding dist_ok_def
proof (intro allI impI)
  fix x assume x: "x \<le> nLeft g"
  show "dist g ! x \<le> nLeft g \<or> dist g ! x = INF_const"
  proof (cases "x = 0")
    case True
    with layer_bound_zero[OF assms] show ?thesis by auto
  next
    case False
    with layer_bound_left[OF assms _ x] show ?thesis by (cases "dist g ! x = INF_const") auto
  qed
qed

subsection \<open>A pass that fails has explored everything (graphs below \<open>INF_const\<close> vertices)\<close>








section \<open>The augmentation pass\<close>

declare dfs.simps [simp del]

lemma dfs_zero [simp]: "dfs k g 0 = Some (Done (True, g))"
  by (simp add: dfs.simps)

lemma dfs_no_fuel: "u \<noteq> 0 \<Longrightarrow> dfs 0 g u = Some Timeout"
  by (simp add: dfs.simps)

lemma dfs_Suc: "u \<noteq> 0 \<Longrightarrow> dfs (Suc k) g u = idx (adj g) u \<bind> dfs_for k g u"
  by (simp add: dfs.simps)

subsection \<open>What a search may touch\<close>

text \<open>
  A search from \<open>u\<close> keeps the graph and the shape of the engine; it changes a distance
  only to \<open>INF_const\<close>; it leaves alone every vertex whose distance is below that of
  \<open>u\<close>; and when it fails it leaves both pair vectors alone.
\<close>

definition dfs_frame :: "BipartiteGraph \<Rightarrow> nat \<Rightarrow> bool \<Rightarrow> BipartiteGraph \<Rightarrow> bool" where
  "dfs_frame g u b g' \<longleftrightarrow>
     shape g' \<and> nLeft g' = nLeft g \<and> nRight g' = nRight g \<and> adj g' = adj g \<and>
     (\<forall>x\<le>nLeft g. dist g' ! x = dist g ! x \<or> dist g' ! x = INF_const) \<and>
     (\<forall>x\<le>nLeft g. dist g ! x < dist g ! u \<longrightarrow>
        dist g' ! x = dist g ! x \<and> pairU g' ! x = pairU g ! x) \<and>
     (\<not> b \<longrightarrow> pairU g' = pairU g \<and> pairV g' = pairV g)"

definition dfs_safe :: "BipartiteGraph \<Rightarrow> nat \<Rightarrow> (bool \<times> BipartiteGraph) outcome option \<Rightarrow> bool" where
  "dfs_safe g u r \<longleftrightarrow>
     (case r of None \<Rightarrow> False | Some Timeout \<Rightarrow> True | Some (Done (b, g')) \<Rightarrow> dfs_frame g u b g')"

lemma dfs_safe_simps [simp]:
  "dfs_safe g u None = False"
  "dfs_safe g u (Some Timeout) = True"
  "dfs_safe g u (Some (Done (b, g'))) = dfs_frame g u b g'"
  by (simp_all add: dfs_safe_def)

lemma dfs_frame_refl: "shape g \<Longrightarrow> dfs_frame g u b g"
  by (simp add: dfs_frame_def)

lemma dfs_frame_kill:
  assumes "shape g" "u \<le> nLeft g"
  shows "dfs_frame g u False (g\<lparr>dist := (dist g)[u := INF_const]\<rparr>)"
  using assms
  by (auto simp: dfs_frame_def shape_dist_update shape_len nth_list_update)

lemma dfs_frame_fail_then:
  assumes f: "dfs_frame g w False g1" and d: "dist g ! w = dist g ! u + 1"
    and u: "u \<le> nLeft g" and r: "dfs_frame g1 u b g'"
  shows "dfs_frame g u b g'"
proof -
  from f d u have du: "dist g1 ! u = dist g ! u" by (simp add: dfs_frame_def)
  from f have st: "nLeft g1 = nLeft g" "pairU g1 = pairU g" "pairV g1 = pairV g"
    by (simp_all add: dfs_frame_def)
  have "\<forall>x\<le>nLeft g. dist g' ! x = dist g ! x \<or> dist g' ! x = INF_const"
    using f r by (simp add: dfs_frame_def) metis
  moreover have "\<forall>x\<le>nLeft g. dist g ! x < dist g ! u \<longrightarrow>
        dist g' ! x = dist g ! x \<and> pairU g' ! x = pairU g ! x"
  proof (intro allI impI)
    fix x assume x: "x \<le> nLeft g" and lt: "dist g ! x < dist g ! u"
    with f d have "dist g1 ! x = dist g ! x" by (simp add: dfs_frame_def)
    with lt du r x st show "dist g' ! x = dist g ! x \<and> pairU g' ! x = pairU g ! x"
      by (simp add: dfs_frame_def)
  qed
  ultimately show ?thesis using f r by (simp add: dfs_frame_def)
qed

lemma dfs_frame_success:
  assumes f: "dfs_frame g w True g1" and d: "dist g ! w = dist g ! u + 1"
    and u: "u \<le> nLeft g" and v: "1 \<le> v" "v \<le> nRight g"
  shows "dfs_frame g u True (g1\<lparr>pairU := (pairU g1)[u := v], pairV := (pairV g1)[v := u]\<rparr>)"
proof -
  from f have sh: "shape g1" and n: "nLeft g1 = nLeft g" "nRight g1 = nRight g"
    by (simp_all add: dfs_frame_def)
  have "shape (g1\<lparr>pairU := (pairU g1)[u := v], pairV := (pairV g1)[v := u]\<rparr>)"
    using sh u v n by (auto simp: shape_def nth_list_update)
  moreover have "\<forall>x\<le>nLeft g. dist g ! x < dist g ! u \<longrightarrow>
        dist g1 ! x = dist g ! x \<and> (pairU g1)[u := v] ! x = pairU g ! x"
  proof (intro allI impI)
    fix x assume x: "x \<le> nLeft g" and lt: "dist g ! x < dist g ! u"
    then have "x \<noteq> u" by auto
    with f d x lt show "dist g1 ! x = dist g ! x \<and> (pairU g1)[u := v] ! x = pairU g ! x"
      by (simp add: dfs_frame_def)
  qed
  ultimately show ?thesis using f by (simp add: dfs_frame_def)
qed

lemma dfs_for_safe:
  assumes IH: "\<And>g w. shape g \<Longrightarrow> w \<le> nLeft g \<Longrightarrow> dfs_safe g w (dfs k g w)"
  shows "shape g \<Longrightarrow> u \<le> nLeft g \<Longrightarrow> \<forall>v\<in>set vs. 1 \<le> v \<and> v \<le> nRight g \<Longrightarrow>
         dfs_safe g u (dfs_for k g u vs)"
proof (induction vs arbitrary: g)
  case Nil
  then show ?case by (simp add: upd_in shape_len dfs_frame_kill)
next
  case (Cons v vs)
  let ?w = "pairV g ! v"
  from Cons.prems have v: "1 \<le> v" "v \<le> nRight g" and w: "?w \<le> nLeft g"
    by (auto intro: shape_pairV)
  have ix: "idx (pairV g) v = Some ?w" "idx (dist g) ?w = Some (dist g ! ?w)"
    "idx (dist g) u = Some (dist g ! u)"
    using Cons.prems v w by (simp_all add: idx_in shape_len)
  show ?case
  proof (cases "dist g ! ?w = dist g ! u + 1")
    case False
    then have "dfs_for k g u (v # vs) = dfs_for k g u vs" by (simp add: ix)
    with Cons.IH[OF Cons.prems(1,2)] Cons.prems(3) show ?thesis by simp
  next
    case True
    from IH[OF Cons.prems(1) w] have safe: "dfs_safe g ?w (dfs k g ?w)" .
    show ?thesis
    proof (cases "dfs k g ?w")
      case None
      with safe show ?thesis by simp
    next
      case (Some r)
      show ?thesis
      proof (cases r)
        case Timeout
        with Some True show ?thesis by (simp add: ix)
      next
        case (Done p)
        obtain b g1 where p: "p = (b, g1)" by (cases p)
        from safe Some Done p have fr: "dfs_frame g ?w b g1" by simp
        then have sh1: "shape g1" and n1: "nLeft g1 = nLeft g" "nRight g1 = nRight g"
          by (simp_all add: dfs_frame_def)
        show ?thesis
        proof (cases b)
          case True
          with Some Done p \<open>dist g ! ?w = dist g ! u + 1\<close>
          have "dfs_for k g u (v # vs) =
                Some (Done (True, g1\<lparr>pairU := (pairU g1)[u := v], pairV := (pairV g1)[v := u]\<rparr>))"
            using sh1 n1 Cons.prems(2) v by (simp add: ix upd_in shape_len)
          moreover from fr True have "dfs_frame g ?w True g1" by simp
          ultimately show ?thesis
            using dfs_frame_success[OF _ \<open>dist g ! ?w = dist g ! u + 1\<close> Cons.prems(2) v] by simp
        next
          case False
          with Some Done p \<open>dist g ! ?w = dist g ! u + 1\<close>
          have eq: "dfs_for k g u (v # vs) = dfs_for k g1 u vs" by (simp add: ix)
          have "dfs_safe g1 u (dfs_for k g1 u vs)"
            using Cons.IH[OF sh1] Cons.prems(2,3) n1 by simp
          moreover from fr False have "dfs_frame g ?w False g1" by simp
          ultimately show ?thesis
            unfolding eq
            using dfs_frame_fail_then[OF _ \<open>dist g ! ?w = dist g ! u + 1\<close> Cons.prems(2)]
            by (auto simp: dfs_safe_def split: option.splits outcome.splits)
        qed
      qed
    qed
  qed
qed

lemma dfs_safe_all: "shape g \<Longrightarrow> u \<le> nLeft g \<Longrightarrow> dfs_safe g u (dfs k g u)"
proof (induction k arbitrary: g u)
  case 0
  then show ?case by (cases "u = 0") (simp_all add: dfs_no_fuel dfs_frame_refl)
next
  case (Suc k)
  show ?case
  proof (cases "u = 0")
    case True
    with Suc.prems show ?thesis by (simp add: dfs_frame_refl)
  next
    case False
    have "dfs_safe g u (dfs_for k g u (adj g ! u))"
      using Suc.prems by (intro dfs_for_safe Suc.IH) (auto dest: shape_adj)
    with False Suc.prems show ?thesis by (simp add: dfs_Suc idx_in shape_len)
  qed
qed

lemma dfs_for_Nil: "shape g \<Longrightarrow> u \<le> nLeft g \<Longrightarrow>
   dfs_for k g u [] = Some (Done (False, g\<lparr>dist := (dist g)[u := INF_const]\<rparr>))"
  by (simp add: upd_in shape_len)

lemma dfs_for_Cons:
  assumes "shape g" "u \<le> nLeft g" "1 \<le> v" "v \<le> nRight g"
  shows "dfs_for k g u (v # vs) =
    (if dist g ! (pairV g ! v) = dist g ! u + 1 then
       (case dfs k g (pairV g ! v) of
          None \<Rightarrow> None
        | Some Timeout \<Rightarrow> Some Timeout
        | Some (Done (b, g1)) \<Rightarrow>
            if b then Some (Done (True, g1\<lparr>pairU := (pairU g1)[u := v], pairV := (pairV g1)[v := u]\<rparr>))
            else dfs_for k g1 u vs)
     else dfs_for k g u vs)"
proof -
  let ?w = "pairV g ! v"
  from assms have w: "?w \<le> nLeft g" by (auto intro: shape_pairV)
  have ix: "idx (pairV g) v = Some ?w" "idx (dist g) ?w = Some (dist g ! ?w)"
    "idx (dist g) u = Some (dist g ! u)"
    using assms w by (simp_all add: idx_in shape_len)
  from dfs_safe_all[OF assms(1) w] have safe: "dfs_safe g ?w (dfs k g ?w)" .
  show ?thesis
  proof (cases "dfs k g ?w")
    case None
    then show ?thesis by (simp add: ix)
  next
    case (Some r)
    show ?thesis
    proof (cases r)
      case Timeout
      with Some show ?thesis by (simp add: ix)
    next
      case (Done p)
      obtain b g1 where p: "p = (b, g1)" by (cases p)
      from safe Some Done p have "shape g1" "nLeft g1 = nLeft g" "nRight g1 = nRight g"
        by (simp_all add: dfs_frame_def)
      with Some Done p assms show ?thesis by (simp add: ix upd_in shape_len)
    qed
  qed
qed

subsection \<open>Augmenting keeps the pairing a matching\<close>

text \<open>
  \<open>matching_but g s\<close>: the two pair vectors agree with each other and with the graph,
  except that the right vertex \<open>s\<close> may still name a left vertex that has moved on
  (\<open>s = 0\<close>: no exception). In the middle of an augmentation the old partner of the
  vertex being re-paired is in that state, until the caller overwrites it.
\<close>

definition matching_but :: "BipartiteGraph \<Rightarrow> nat \<Rightarrow> bool" where
  "matching_but g s \<longleftrightarrow>
     (\<forall>u. 1 \<le> u \<and> u \<le> nLeft g \<and> pairU g ! u \<noteq> 0 \<longrightarrow>
          pairV g ! (pairU g ! u) = u \<and> pairU g ! u \<in> set (adj g ! u)) \<and>
     (\<forall>v. 1 \<le> v \<and> v \<le> nRight g \<and> v \<noteq> s \<and> pairV g ! v \<noteq> 0 \<longrightarrow>
          pairU g ! (pairV g ! v) = v)"

definition aug_post :: "BipartiteGraph \<Rightarrow> nat \<Rightarrow> BipartiteGraph \<Rightarrow> bool" where
  "aug_post g u g' \<longleftrightarrow>
     matching_but g' (pairU g ! u) \<and> pairU g' ! u \<noteq> 0 \<and> pairU g' ! u \<noteq> pairU g ! u \<and>
     (\<forall>x. 1 \<le> x \<and> x \<le> nLeft g \<and> x \<noteq> u \<longrightarrow> (pairU g' ! x = 0 \<longleftrightarrow> pairU g ! x = 0)) \<and>
     (pairU g ! u \<noteq> 0 \<longrightarrow> pairV g' ! (pairU g ! u) = u)"

lemma matching_butD1:
  "matching_but g s \<Longrightarrow> 1 \<le> u \<Longrightarrow> u \<le> nLeft g \<Longrightarrow> pairU g ! u \<noteq> 0 \<Longrightarrow>
   pairV g ! (pairU g ! u) = u \<and> pairU g ! u \<in> set (adj g ! u)"
  by (simp add: matching_but_def)

lemma matching_butD2:
  "matching_but g s \<Longrightarrow> 1 \<le> v \<Longrightarrow> v \<le> nRight g \<Longrightarrow> v \<noteq> s \<Longrightarrow> pairV g ! v \<noteq> 0 \<Longrightarrow>
   pairU g ! (pairV g ! v) = v"
  by (simp add: matching_but_def)

lemma aug_step:
  assumes sh: "shape g1" and n: "nLeft g1 = nLeft g" "nRight g1 = nRight g" "adj g1 = adj g"
    and m1: "matching_but g1 t"
    and u: "1 \<le> u" "u \<le> nLeft g" and v: "1 \<le> v" "v \<le> nRight g" "v \<in> set (adj g ! u)"
    and t: "t = 0 \<and> pairV g1 ! v = 0 \<or> t = v \<and> pairV g1 ! v \<noteq> u \<and> pairU g1 ! (pairV g1 ! v) \<noteq> v"
    and s: "pairU g1 ! u = s" "s \<noteq> v"
  shows "matching_but (g1\<lparr>pairU := (pairU g1)[u := v], pairV := (pairV g1)[v := u]\<rparr>) s"
proof -
  let ?g3 = "g1\<lparr>pairU := (pairU g1)[u := v], pairV := (pairV g1)[v := u]\<rparr>"
  have lu: "u < length (pairU g1)" and lv: "v < length (pairV g1)"
    using sh u v n by (simp_all add: shape_len)
  have LR: "pairV ?g3 ! (pairU ?g3 ! x) = x \<and> pairU ?g3 ! x \<in> set (adj ?g3 ! x)"
    if x: "1 \<le> x" "x \<le> nLeft ?g3" "pairU ?g3 ! x \<noteq> 0" for x
  proof (cases "x = u")
    case True
    with lu lv v n show ?thesis by simp
  next
    case False
    with x have y0: "pairU g1 ! x \<noteq> 0" by simp
    from matching_butD1[OF m1 x(1) _ y0] x
    have y: "pairV g1 ! (pairU g1 ! x) = x" "pairU g1 ! x \<in> set (adj g1 ! x)" by simp_all
    have "pairU g1 ! x \<noteq> v"
    proof
      assume e: "pairU g1 ! x = v"
      with y have "pairV g1 ! v = x" by simp
      with t e x False show False by auto
    qed
    with False y show ?thesis by simp
  qed
  have RL: "pairU ?g3 ! (pairV ?g3 ! y) = y"
    if y: "1 \<le> y" "y \<le> nRight ?g3" "y \<noteq> s" "pairV ?g3 ! y \<noteq> 0" for y
  proof (cases "y = v")
    case True
    with lu lv show ?thesis by simp
  next
    case False
    with y have x0: "pairV g1 ! y \<noteq> 0" by simp
    have yt: "y \<noteq> t" using t False y by auto
    from matching_butD2[OF m1 y(1) _ yt x0] y have e: "pairU g1 ! (pairV g1 ! y) = y" by simp
    have "pairV g1 ! y \<noteq> u"
    proof
      assume "pairV g1 ! y = u"
      with e s y show False by simp
    qed
    with False e show ?thesis by simp
  qed
  show ?thesis
    unfolding matching_but_def using LR RL by blast
qed

lemma aug_post_step:
  assumes sh: "shape g" "shape g1" and n: "nLeft g1 = nLeft g" "nRight g1 = nRight g" "adj g1 = adj g"
    and m: "matching_but g 0"
    and u: "1 \<le> u" "u \<le> nLeft g" and v: "1 \<le> v" "v \<le> nRight g" "v \<in> set (adj g ! u)"
    and d: "dist g ! (pairV g ! v) = dist g ! u + 1"
    and fr: "dfs_frame g (pairV g ! v) True g1"
    and a: "pairV g ! v = 0 \<and> g1 = g \<or> pairV g ! v \<noteq> 0 \<and> aug_post g (pairV g ! v) g1"
  shows "aug_post g u (g1\<lparr>pairU := (pairU g1)[u := v], pairV := (pairV g1)[v := u]\<rparr>)"
proof -
  let ?w = "pairV g ! v"
  let ?s = "pairU g ! u"
  let ?g3 = "g1\<lparr>pairU := (pairU g1)[u := v], pairV := (pairV g1)[v := u]\<rparr>"
  have lu: "u < length (pairU g1)" and lv: "v < length (pairV g1)"
    using sh u v n by (simp_all add: shape_len)
  from d have uw: "u \<noteq> ?w" by auto
  from fr d u have su: "pairU g1 ! u = ?s" by (simp add: dfs_frame_def)
  have sv: "?s \<noteq> v"
  proof
    assume e: "?s = v"
    with v have "?s \<noteq> 0" by simp
    from matching_butD1[OF m u this] e uw show False by simp
  qed
  have wv: "?w \<noteq> 0 \<Longrightarrow> pairU g ! ?w = v"
    using matching_butD2[OF m v(1,2)] v by simp
  have wn: "?w \<le> nLeft g" using shape_pairV[OF sh(1) v(2)] .
  obtain t where m1: "matching_but g1 t" and
    t: "t = 0 \<and> pairV g1 ! v = 0 \<or> t = v \<and> pairV g1 ! v \<noteq> u \<and> pairU g1 ! (pairV g1 ! v) \<noteq> v"
  proof (cases "?w = 0")
    case True
    with a have "g1 = g" by simp
    with m True that[of 0] show ?thesis by simp
  next
    case False
    with a have ap: "aug_post g ?w g1" by simp
    with wv[OF False] have "matching_but g1 v" "pairU g1 ! ?w \<noteq> v" "pairV g1 ! v = ?w"
      using v by (simp_all add: aug_post_def)
    with uw that[of v] show ?thesis by auto
  qed
  have mb: "matching_but ?g3 ?s"
    by (rule aug_step[OF sh(2) n m1 u v t su sv])
  have fs: "pairU ?g3 ! x = 0 \<longleftrightarrow> pairU g ! x = 0" if x: "1 \<le> x" "x \<le> nLeft g" "x \<noteq> u" for x
  proof (cases "?w = 0")
    case True
    with a x show ?thesis by simp
  next
    case False
    with a have ap: "aug_post g ?w g1" by simp
    show ?thesis
    proof (cases "x = ?w")
      case True
      with ap wv[OF False] v x show ?thesis by (simp add: aug_post_def)
    next
      case False
      with ap x show ?thesis by (simp add: aug_post_def)
    qed
  qed
  have stale: "pairV ?g3 ! ?s = u" if s0: "?s \<noteq> 0"
  proof -
    from s0 su have "pairU g1 ! u \<noteq> 0" by simp
    from matching_butD1[OF m1 u(1) _ this] u n su have "pairV g1 ! ?s = u" by simp
    with sv show ?thesis by simp
  qed
  show ?thesis
    unfolding aug_post_def
    using mb fs stale lu v sv by auto
qed

lemma dfs_for_aug:
  assumes IH: "\<And>g w g'. shape g \<Longrightarrow> matching_but g 0 \<Longrightarrow> 1 \<le> w \<Longrightarrow> w \<le> nLeft g \<Longrightarrow>
                 dfs k g w = Some (Done (True, g')) \<Longrightarrow> aug_post g w g'"
  shows "shape g \<Longrightarrow> matching_but g 0 \<Longrightarrow> 1 \<le> u \<Longrightarrow> u \<le> nLeft g \<Longrightarrow>
         set vs \<subseteq> set (adj g ! u) \<Longrightarrow> dfs_for k g u vs = Some (Done (True, g')) \<Longrightarrow>
         aug_post g u g'"
proof (induction vs arbitrary: g)
  case Nil
  then show ?case by (auto split: bind_splits)
next
  case (Cons v vs)
  let ?w = "pairV g ! v"
  from Cons.prems have vin: "v \<in> set (adj g ! u)" by simp
  with Cons.prems have v: "1 \<le> v" "v \<le> nRight g" by (auto dest: shape_adj)
  have wn: "?w \<le> nLeft g" using shape_pairV[OF Cons.prems(1) v(2)] .
  note eq = dfs_for_Cons[OF Cons.prems(1,4) v, of k vs]
  show ?case
  proof (cases "dist g ! ?w = dist g ! u + 1")
    case False
    with Cons.prems(6) eq have "dfs_for k g u vs = Some (Done (True, g'))" by simp
    with Cons.IH[OF Cons.prems(1-4)] Cons.prems(5) show ?thesis by simp
  next
    case True
    from Cons.prems(6) eq True obtain b g1 where
      r: "dfs k g ?w = Some (Done (b, g1))"
      by (auto split: option.splits outcome.splits)
    from dfs_safe_all[OF Cons.prems(1) wn, of k] r have fr: "dfs_frame g ?w b g1" by simp
    then have sh1: "shape g1" and n1: "nLeft g1 = nLeft g" "nRight g1 = nRight g" "adj g1 = adj g"
      by (simp_all add: dfs_frame_def)
    show ?thesis
    proof (cases b)
      case True
      with Cons.prems(6) eq r \<open>dist g ! ?w = dist g ! u + 1\<close>
      have g': "g' = g1\<lparr>pairU := (pairU g1)[u := v], pairV := (pairV g1)[v := u]\<rparr>" by simp
      have a: "?w = 0 \<and> g1 = g \<or> ?w \<noteq> 0 \<and> aug_post g ?w g1"
      proof (cases "?w = 0")
        case True
        with r show ?thesis by simp
      next
        case False
        with IH[OF Cons.prems(1,2) _ wn] r True show ?thesis by simp
      qed
      from fr True have fr': "dfs_frame g ?w True g1" by simp
      show ?thesis
        unfolding g'
        by (rule aug_post_step[OF Cons.prems(1) sh1 n1 Cons.prems(2,3,4) v vin
              \<open>dist g ! ?w = dist g ! u + 1\<close> fr' a])
    next
      case False
      with Cons.prems(6) eq r \<open>dist g ! ?w = dist g ! u + 1\<close>
      have rest: "dfs_for k g1 u vs = Some (Done (True, g'))" by simp
      from fr False have same: "pairU g1 = pairU g" "pairV g1 = pairV g" by (simp_all add: dfs_frame_def)
      have m1: "matching_but g1 0"
        using Cons.prems(2) same n1 by (simp add: matching_but_def)
      have "aug_post g1 u g'"
        using Cons.IH[OF sh1 m1 Cons.prems(3)] Cons.prems(4,5) n1 rest by simp
      then show ?thesis using same n1 by (simp add: aug_post_def)
    qed
  qed
qed

lemma dfs_aug:
  "shape g \<Longrightarrow> matching_but g 0 \<Longrightarrow> 1 \<le> u \<Longrightarrow> u \<le> nLeft g \<Longrightarrow>
   dfs k g u = Some (Done (True, g')) \<Longrightarrow> aug_post g u g'"
proof (induction k arbitrary: g u g')
  case 0
  then show ?case by (simp add: dfs_no_fuel)
next
  case (Suc k)
  from Suc.prems have "dfs_for k g u (adj g ! u) = Some (Done (True, g'))"
    by (simp add: dfs_Suc idx_in shape_len)
  with Suc.prems show ?case
    by (intro dfs_for_aug[of k g u "adj g ! u" g'] Suc.IH) auto
qed

declare dfs_for.simps [simp del]

subsection \<open>A search fails only where no layered path leads to the sentinel\<close>

text \<open>
  \<open>lpath g u\<close>: from \<open>u\<close> one can reach the sentinel 0 over edges that each lead to a
  right vertex whose partner lies exactly one layer further. These are the paths
  \<^verbatim>\<open>dfs\<close> follows.
\<close>

inductive lpath :: "BipartiteGraph \<Rightarrow> nat \<Rightarrow> bool" for g where
  lpath_end: "lpath g 0"
| lpath_step: "1 \<le> u \<Longrightarrow> u \<le> nLeft g \<Longrightarrow> v \<in> set (adj g ! u) \<Longrightarrow>
     dist g ! (pairV g ! v) = dist g ! u + 1 \<Longrightarrow> lpath g (pairV g ! v) \<Longrightarrow> lpath g u"

definition kills :: "BipartiteGraph \<Rightarrow> BipartiteGraph \<Rightarrow> bool" where
  "kills g g' \<longleftrightarrow>
     nLeft g' = nLeft g \<and> adj g' = adj g \<and> pairV g' = pairV g \<and>
     (\<forall>x\<le>nLeft g. dist g' ! x \<noteq> dist g ! x \<longrightarrow> \<not> lpath g x)"

lemma kills_refl: "kills g g"
  by (simp add: kills_def)

lemma lpath_kills:
  assumes "shape g" "kills g g'"
  shows "lpath g x \<Longrightarrow> lpath g' x"
proof (induction rule: lpath.induct)
  case lpath_end
  show ?case by (rule lpath.lpath_end)
next
  case (lpath_step u v)
  let ?w = "pairV g ! v"
  have lu: "lpath g u" by (rule lpath.lpath_step[OF lpath_step.hyps])
  from shape_adj[OF assms(1) lpath_step.hyps(2,3)] shape_pairV[OF assms(1)]
  have wn: "?w \<le> nLeft g" by simp
  from assms(2) lu lpath_step.hyps(2) have du: "dist g' ! u = dist g ! u"
    by (auto simp: kills_def)
  from assms(2) wn lpath_step.hyps(5) have dw: "dist g' ! ?w = dist g ! ?w"
    by (auto simp: kills_def)
  from assms(2) have st: "nLeft g' = nLeft g" "adj g' = adj g" "pairV g' = pairV g"
    by (simp_all add: kills_def)
  show ?case
    using lpath.lpath_step[of u g' v] lpath_step.hyps(1,2,3,4) lpath_step.IH du dw st by simp
qed

lemma kills_trans:
  assumes "shape g" "kills g g1" "kills g1 g2"
  shows "kills g g2"
proof -
  have "\<not> lpath g x" if x: "x \<le> nLeft g" and ne: "dist g2 ! x \<noteq> dist g ! x" for x
  proof (cases "dist g1 ! x = dist g ! x")
    case False
    with assms(2) x show ?thesis by (simp add: kills_def)
  next
    case True
    with ne assms(2,3) x have "\<not> lpath g1 x" by (simp add: kills_def)
    with lpath_kills[OF assms(1,2)] show ?thesis by blast
  qed
  with assms(2,3) show ?thesis by (simp add: kills_def)
qed

lemma dfs_for_fail:
  assumes IH: "\<And>g w g'. shape g \<Longrightarrow> w \<le> nLeft g \<Longrightarrow> dfs k g w = Some (Done (False, g')) \<Longrightarrow>
                 kills g g' \<and> \<not> lpath g w"
    and sh0: "shape g0" and u: "1 \<le> u" "u \<le> nLeft g0"
  shows "shape g \<Longrightarrow> kills g0 g \<Longrightarrow> set vs \<subseteq> set (adj g0 ! u) \<Longrightarrow>
         (lpath g0 u \<longrightarrow> (\<exists>v\<in>set vs. dist g0 ! (pairV g0 ! v) = dist g0 ! u + 1 \<and> lpath g0 (pairV g0 ! v))) \<Longrightarrow>
         dfs_for k g u vs = Some (Done (False, g')) \<Longrightarrow>
         kills g0 g' \<and> \<not> lpath g0 u"
proof (induction vs arbitrary: g)
  case Nil
  then have nl: "\<not> lpath g0 u" by simp
  from Nil.prems(2) have n: "nLeft g = nLeft g0" by (simp add: kills_def)
  from Nil.prems(1,5) u n have g': "g' = g\<lparr>dist := (dist g)[u := INF_const]\<rparr>"
    by (simp add: dfs_for_Nil)
  have "\<not> lpath g0 x" if x: "x \<le> nLeft g0" and ne: "dist g' ! x \<noteq> dist g0 ! x" for x
  proof (cases "x = u")
    case True
    with nl show ?thesis by simp
  next
    case False
    with ne have "dist g ! x \<noteq> dist g0 ! x" by (simp add: g')
    with Nil.prems(2) x show ?thesis by (simp add: kills_def)
  qed
  then have "kills g0 g'"
    using Nil.prems(2) by (simp add: kills_def g')
  with nl show ?case by simp
next
  case (Cons v vs)
  let ?w = "pairV g ! v"
  from Cons.prems(2) have st: "nLeft g = nLeft g0" "adj g = adj g0" "pairV g = pairV g0"
    by (simp_all add: kills_def)
  from Cons.prems(3) have vin: "v \<in> set (adj g0 ! u)" by simp
  from shape_adj[OF sh0 u(2) vin] have v: "1 \<le> v" "v \<le> nRight g0" by simp_all
  have vg: "v \<le> nRight g"
    using Cons.prems(1) shape_adj[of g u v] vin st u by simp
  have wn: "?w \<le> nLeft g0" using shape_pairV[OF sh0 v(2)] st by simp
  have ug: "u \<le> nLeft g" using u st by simp
  note eq = dfs_for_Cons[OF Cons.prems(1) ug v(1) vg, of k vs]
  have nostep_then: "lpath g0 u \<longrightarrow>
      (\<exists>v\<in>set vs. dist g0 ! (pairV g0 ! v) = dist g0 ! u + 1 \<and> lpath g0 (pairV g0 ! v))"
    if ns: "\<not> (dist g0 ! ?w = dist g0 ! u + 1 \<and> lpath g0 ?w)"
    using Cons.prems(4) ns st by auto
  show ?case
  proof (cases "dist g ! ?w = dist g ! u + 1")
    case False
    have ns: "\<not> (dist g0 ! ?w = dist g0 ! u + 1 \<and> lpath g0 ?w)"
    proof
      assume a: "dist g0 ! ?w = dist g0 ! u + 1 \<and> lpath g0 ?w"
      with lpath.lpath_step[of u g0 v] u vin st have "lpath g0 u" by simp
      with Cons.prems(2) u have "dist g ! u = dist g0 ! u" by (auto simp: kills_def)
      moreover from a Cons.prems(2) wn have "dist g ! ?w = dist g0 ! ?w" by (auto simp: kills_def)
      ultimately show False using a False by simp
    qed
    from False Cons.prems(5) eq have "dfs_for k g u vs = Some (Done (False, g'))" by simp
    with Cons.IH[OF Cons.prems(1,2) _ nostep_then[OF ns]] Cons.prems(3) show ?thesis by simp
  next
    case True
    from Cons.prems(5) eq True obtain g1 where
      r: "dfs k g ?w = Some (Done (False, g1))" and rest: "dfs_for k g1 u vs = Some (Done (False, g'))"
      by (auto split: option.splits outcome.splits if_splits)
    have wg: "?w \<le> nLeft g" using wn st by simp
    from IH[OF Cons.prems(1) wg r] have k1: "kills g g1" and nw: "\<not> lpath g ?w" by simp_all
    from dfs_safe_all[OF Cons.prems(1) wg, of k] r have "shape g1" by (simp add: dfs_frame_def)
    have ns: "\<not> (dist g0 ! ?w = dist g0 ! u + 1 \<and> lpath g0 ?w)"
      using lpath_kills[OF sh0 Cons.prems(2), of ?w] nw by blast
    have k01: "kills g0 g1" by (rule kills_trans[OF sh0 Cons.prems(2) k1])
    from Cons.IH[OF \<open>shape g1\<close> k01 _ nostep_then[OF ns] rest] Cons.prems(3) show ?thesis by simp
  qed
qed

lemma dfs_fail:
  "shape g \<Longrightarrow> u \<le> nLeft g \<Longrightarrow> dfs k g u = Some (Done (False, g')) \<Longrightarrow>
   kills g g' \<and> \<not> lpath g u"
proof (induction k arbitrary: g u g')
  case 0
  then show ?case by (cases "u = 0") (simp_all add: dfs_no_fuel)
next
  case (Suc k)
  show ?case
  proof (cases "u = 0")
    case True
    with Suc.prems show ?thesis by simp
  next
    case False
    with Suc.prems have r: "dfs_for k g u (adj g ! u) = Some (Done (False, g'))"
      by (simp add: dfs_Suc idx_in shape_len)
    have pre: "lpath g u \<longrightarrow>
        (\<exists>v\<in>set (adj g ! u). dist g ! (pairV g ! v) = dist g ! u + 1 \<and> lpath g (pairV g ! v))"
    proof
      assume "lpath g u"
      then show "\<exists>v\<in>set (adj g ! u). dist g ! (pairV g ! v) = dist g ! u + 1 \<and> lpath g (pairV g ! v)"
        using False by cases auto
    qed
    show ?thesis
      by (rule dfs_for_fail[OF Suc.IH Suc.prems(1) _ Suc.prems(2) Suc.prems(1) kills_refl _ pre r])
        (use False in auto)
  qed
qed

subsection \<open>The depth a search needs\<close>

definition need :: "BipartiteGraph \<Rightarrow> nat \<Rightarrow> nat" where
  "need g u = (if u = 0 then 0 else if dist g ! u \<le> nLeft g then nLeft g + 2 - dist g ! u else 1)"

lemma need_le: "need g u \<le> nLeft g + 2"
  by (simp add: need_def)

lemma dist_ok_frame:
  assumes "dist_ok g" "dfs_frame g w b g1"
  shows "dist_ok g1"
  using assms unfolding dist_ok_def dfs_frame_def by metis

lemma dfs_for_fuel:
  assumes IH: "\<And>g w. shape g \<Longrightarrow> dist_ok g \<Longrightarrow> w \<le> nLeft g \<Longrightarrow> need g w \<le> k \<Longrightarrow>
                 dfs k g w \<noteq> Some Timeout"
  shows "shape g \<Longrightarrow> dist_ok g \<Longrightarrow> 1 \<le> u \<Longrightarrow> u \<le> nLeft g \<Longrightarrow>
         \<forall>v\<in>set vs. 1 \<le> v \<and> v \<le> nRight g \<Longrightarrow> need g u \<le> Suc k \<Longrightarrow>
         dfs_for k g u vs \<noteq> Some Timeout"
proof (induction vs arbitrary: g)
  case Nil
  then show ?case by (simp add: dfs_for_Nil)
next
  case (Cons v vs)
  let ?w = "pairV g ! v"
  from Cons.prems have v: "1 \<le> v" "v \<le> nRight g" by simp_all
  have wn: "?w \<le> nLeft g" using shape_pairV[OF Cons.prems(1) v(2)] .
  note eq = dfs_for_Cons[OF Cons.prems(1,4) v, of k vs]
  show ?case
  proof (cases "dist g ! ?w = dist g ! u + 1")
    case False
    with eq Cons.IH[OF Cons.prems(1-4)] Cons.prems(5,6) show ?thesis by simp
  next
    case True
    have nw: "need g ?w \<le> k"
    proof (cases "?w = 0")
      case True
      then show ?thesis by (simp add: need_def)
    next
      case False
      from Cons.prems(2) wn have "dist g ! ?w \<le> nLeft g \<or> dist g ! ?w = INF_const"
        by (simp add: dist_ok_def)
      moreover from Cons.prems(2,4) have "dist g ! u \<le> nLeft g \<or> dist g ! u = INF_const"
        by (simp add: dist_ok_def)
      ultimately show ?thesis
        using True Cons.prems(3,6) False
        by (auto simp: need_def split: if_splits)
    qed
    from IH[OF Cons.prems(1,2) wn nw] have nt: "dfs k g ?w \<noteq> Some Timeout" .
    from dfs_safe_all[OF Cons.prems(1) wn, of k] have safe: "dfs_safe g ?w (dfs k g ?w)" .
    show ?thesis
    proof (cases "dfs k g ?w")
      case None
      with safe show ?thesis by simp
    next
      case (Some r)
      with nt obtain b g1 where r: "dfs k g ?w = Some (Done (b, g1))"
        by (cases r) auto
      with safe have fr: "dfs_frame g ?w b g1" by simp
      show ?thesis
      proof (cases b)
        case True
        with eq r \<open>dist g ! ?w = dist g ! u + 1\<close> show ?thesis by simp
      next
        case False
        from fr have sh1: "shape g1" and n1: "nLeft g1 = nLeft g" "nRight g1 = nRight g"
          by (simp_all add: dfs_frame_def)
        from fr True Cons.prems(4) have du: "dist g1 ! u = dist g ! u" by (simp add: dfs_frame_def)
        have "need g1 u = need g u" by (simp add: need_def du n1)
        with Cons.IH[OF sh1 dist_ok_frame[OF Cons.prems(2) fr] Cons.prems(3)] Cons.prems(4,5,6) n1
        have "dfs_for k g1 u vs \<noteq> Some Timeout" by simp
        with eq r False \<open>dist g ! ?w = dist g ! u + 1\<close> show ?thesis by simp
      qed
    qed
  qed
qed

lemma dfs_fuel:
  "shape g \<Longrightarrow> dist_ok g \<Longrightarrow> u \<le> nLeft g \<Longrightarrow> need g u \<le> k \<Longrightarrow> dfs k g u \<noteq> Some Timeout"
proof (induction k arbitrary: g u)
  case 0
  then show ?case by (cases "u = 0") (auto simp: need_def split: if_splits)
next
  case (Suc k)
  show ?case
  proof (cases "u = 0")
    case True
    then show ?thesis by simp
  next
    case False
    have "dfs_for k g u (adj g ! u) \<noteq> Some Timeout"
      using Suc.prems False
      by (intro dfs_for_fuel Suc.IH) (auto dest: shape_adj)
    with False Suc.prems show ?thesis by (simp add: dfs_Suc idx_in shape_len)
  qed
qed

text \<open>With depth \<open>nLeft + 2\<close> every search returns, found or not.\<close>

lemma dfs_returns:
  assumes "shape g" "dist_ok g" "u \<le> nLeft g" "nLeft g + 2 \<le> k"
  shows "\<exists>b g'. dfs k g u = Some (Done (b, g')) \<and> dfs_frame g u b g'"
proof -
  from need_le[of g u] assms(4) have "need g u \<le> k" by simp
  from dfs_fuel[OF assms(1-3) this] dfs_safe_all[OF assms(1,3), of k]
  show ?thesis
    by (cases "dfs k g u") (auto simp: dfs_safe_def split: outcome.splits)
qed

section \<open>Phases\<close>

definition free_left :: "BipartiteGraph \<Rightarrow> nat set" where
  "free_left g = {u. 1 \<le> u \<and> u \<le> nLeft g \<and> pairU g ! u = 0}"

lemma finite_free_left [simp]: "finite (free_left g)"
proof -
  have "free_left g \<subseteq> {1..nLeft g}" by (auto simp: free_left_def)
  then show ?thesis by (rule finite_subset) simp
qed

lemma card_free_left_le: "card (free_left g) \<le> nLeft g"
proof -
  have "free_left g \<subseteq> {1..nLeft g}" by (auto simp: free_left_def)
  then have "card (free_left g) \<le> card {1..nLeft g}" by (intro card_mono) auto
  then show ?thesis by simp
qed

subsection \<open>One search from a free vertex\<close>

lemma dfs_top_found:
  assumes "shape g" "matching_but g 0" "1 \<le> u" "u \<le> nLeft g" "pairU g ! u = 0"
    and "dfs f g u = Some (Done (True, g'))"
  shows "matching_but g' 0 \<and> free_left g' = free_left g - {u} \<and> u \<in> free_left g"
proof -
  from dfs_aug[OF assms(1-4,6)] assms(5) have
    m: "matching_but g' 0" and nz: "pairU g' ! u \<noteq> 0" and
    fs: "\<forall>x. 1 \<le> x \<and> x \<le> nLeft g \<and> x \<noteq> u \<longrightarrow> (pairU g' ! x = 0 \<longleftrightarrow> pairU g ! x = 0)"
    by (simp_all add: aug_post_def)
  from dfs_safe_all[OF assms(1,4), of f] assms(6) have n: "nLeft g' = nLeft g"
    by (simp add: dfs_frame_def)
  have "free_left g' = free_left g - {u}"
    using fs nz n by (auto simp: free_left_def)
  with m assms show ?thesis by (simp add: free_left_def)
qed

lemma dfs_top_failed:
  assumes "shape g" "matching_but g 0" "u \<le> nLeft g"
    and "dfs f g u = Some (Done (False, g'))"
  shows "matching_but g' 0 \<and> free_left g' = free_left g \<and> kills g g' \<and> \<not> lpath g u"
proof -
  from dfs_safe_all[OF assms(1,3), of f] assms(4) have
    "nLeft g' = nLeft g" "nRight g' = nRight g" "adj g' = adj g" "pairU g' = pairU g" "pairV g' = pairV g"
    by (simp_all add: dfs_frame_def)
  with assms(2) dfs_fail[OF assms(1,3,4)] show ?thesis
    by (simp add: matching_but_def free_left_def)
qed

subsection \<open>The loop of a phase\<close>

lemma dfs_all_spec:
  assumes f: "nLeft g0 + 2 \<le> f"
  shows "shape g \<Longrightarrow> matching_but g 0 \<Longrightarrow> dist_ok g \<Longrightarrow> nLeft g = nLeft g0 \<Longrightarrow>
     \<forall>u\<in>set us. 1 \<le> u \<and> u \<le> nLeft g \<Longrightarrow>
     \<exists>m' g'. dfs_all f g m us = Some (Done (m', g')) \<and> shape g' \<and>
        nLeft g' = nLeft g \<and> nRight g' = nRight g \<and> adj g' = adj g \<and>
        matching_but g' 0 \<and> m \<le> m' \<and> m' + card (free_left g') = m + card (free_left g) \<and>
        (m' = m \<longrightarrow> (\<forall>u\<in>set us. pairU g ! u = 0 \<longrightarrow> \<not> lpath g u))"
proof (induction us arbitrary: g m)
  case Nil
  then show ?case by simp
next
  case (Cons u us)
  from Cons.prems have u: "1 \<le> u" "u \<le> nLeft g" and us: "\<forall>x\<in>set us. 1 \<le> x \<and> x \<le> nLeft g"
    by simp_all
  have ix: "idx (pairU g) u = Some (pairU g ! u)"
    using Cons.prems(1) u by (simp add: idx_in shape_len)
  show ?case
  proof (cases "pairU g ! u = 0")
    case False
    then have eq: "dfs_all f g m (u # us) = dfs_all f g m us" by (simp add: ix)
    from Cons.IH[OF Cons.prems(1-4) us, of m] False show ?thesis unfolding eq by auto
  next
    case True
    from f Cons.prems(4) have f': "nLeft g + 2 \<le> f" by simp
    from dfs_returns[OF Cons.prems(1,3) u(2) f'] obtain b g1 where
      r: "dfs f g u = Some (Done (b, g1))" and fr: "dfs_frame g u b g1" by blast
    from fr have sh1: "shape g1" and n1: "nLeft g1 = nLeft g" "nRight g1 = nRight g" "adj g1 = adj g"
      by (simp_all add: dfs_frame_def)
    have ok1: "dist_ok g1" by (rule dist_ok_frame[OF Cons.prems(3) fr])
    have us1: "\<forall>x\<in>set us. 1 \<le> x \<and> x \<le> nLeft g1" using us n1 by simp
    have n10: "nLeft g1 = nLeft g0" using n1 Cons.prems(4) by simp
    show ?thesis
    proof (cases b)
      case found: True
      with r True have eq: "dfs_all f g m (u # us) = dfs_all f g1 (m + 1) us" by (simp add: ix)
      from dfs_top_found[OF Cons.prems(1,2) u True] r found have
        m1: "matching_but g1 0" and fl: "free_left g1 = free_left g - {u}" and uf: "u \<in> free_left g"
        by simp_all
      have c: "Suc (card (free_left g1)) = card (free_left g)"
        unfolding fl by (rule card_Suc_Diff1[OF finite_free_left uf])
      from Cons.IH[OF sh1 m1 ok1 n10 us1, of "m + 1"] obtain m' g' where
        *: "dfs_all f g1 (m + 1) us = Some (Done (m', g'))" "shape g'"
          "nLeft g' = nLeft g1" "nRight g' = nRight g1" "adj g' = adj g1"
          "matching_but g' 0" "m + 1 \<le> m'" "m' + card (free_left g') = m + 1 + card (free_left g1)"
        by blast
      show ?thesis
        unfolding eq using * n1 c by (intro exI[of _ m'] exI[of _ g']) simp
    next
      case notfound: False
      with r True have eq: "dfs_all f g m (u # us) = dfs_all f g1 m us" by (simp add: ix)
      from dfs_top_failed[OF Cons.prems(1,2) u(2)] r notfound have
        m1: "matching_but g1 0" and fl: "free_left g1 = free_left g" and k: "kills g g1"
        and nl: "\<not> lpath g u"
        by simp_all
      from fr notfound have pu: "pairU g1 = pairU g" by (simp add: dfs_frame_def)
      from Cons.IH[OF sh1 m1 ok1 n10 us1, of m] obtain m' g' where
        *: "dfs_all f g1 m us = Some (Done (m', g'))" "shape g'"
          "nLeft g' = nLeft g1" "nRight g' = nRight g1" "adj g' = adj g1"
          "matching_but g' 0" "m \<le> m'" "m' + card (free_left g') = m + card (free_left g1)"
          "m' = m \<longrightarrow> (\<forall>u\<in>set us. pairU g1 ! u = 0 \<longrightarrow> \<not> lpath g1 u)"
        by blast
      have "m' = m \<longrightarrow> (\<forall>x\<in>set (u # us). pairU g ! x = 0 \<longrightarrow> \<not> lpath g x)"
        using *(9) nl pu lpath_kills[OF Cons.prems(1) k] by auto
      with * show ?thesis
        unfolding eq using n1 fl by (intro exI[of _ m'] exI[of _ g']) simp
    qed
  qed
qed

subsection \<open>A layering pass that succeeds leaves a path for the searches\<close>

lemma layered_source:
  assumes "dist_le g" "zero_free g" "layered g"
  shows "x \<le> nLeft g \<Longrightarrow> dist g ! x = d \<Longrightarrow> d \<noteq> INF_const \<Longrightarrow> lpath g x \<Longrightarrow>
         \<exists>u. 1 \<le> u \<and> u \<le> nLeft g \<and> pairU g ! u = 0 \<and> lpath g u"
proof (induction d arbitrary: x)
  case 0
  have x0: "x \<noteq> 0"
  proof
    assume "x = 0"
    with 0 assms(2) show False by (simp add: zero_free_def)
  qed
  with 0 assms(2) have "pairU g ! x = 0" by (simp add: zero_free_def)
  with 0 x0 show ?case by (intro exI[of _ x]) simp
next
  case (Suc d)
  from assms(3) Suc.prems obtain y v where
    y: "1 \<le> y" "y \<le> nLeft g" "v \<in> set (adj g ! y)" "pairV g ! v = x" "dist g ! y + 1 = dist g ! x"
    unfolding layered_def by (metis nat.distinct(1))
  from y Suc.prems have dy: "dist g ! y = d" by simp
  from assms(1) Suc.prems have "Suc d \<le> INF_const" by (auto simp: dist_le_def)
  then have fin: "d \<noteq> INF_const" by auto
  have "lpath g y"
    using lpath_step[of y g v] y Suc.prems(4) by simp
  from Suc.IH[OF y(2) dy fin this] show ?case .
qed

lemma bfs_found_source:
  assumes "shape g" "bfs g = Some (True, g1)"
  shows "\<exists>u. 1 \<le> u \<and> u \<le> nLeft g1 \<and> pairU g1 ! u = 0 \<and> lpath g1 u"
proof -
  from bfs_post[OF assms] have "dist_le g1" "zero_free g1" "layered g1" "dist g1 ! 0 \<noteq> INF_const"
    by simp_all
  from layered_source[OF this(1-3) _ refl this(4) lpath_end] show ?thesis by simp
qed

subsection \<open>The phase loop returns\<close>

lemma matching_but_dist [simp]: "matching_but (g\<lparr>dist := d\<rparr>) s = matching_but g s"
  by (simp add: matching_but_def)

lemma free_left_dist [simp]: "free_left (g\<lparr>dist := d\<rparr>) = free_left g"
  by (simp add: free_left_def)

lemma phase_progress:
  assumes sh: "shape g" and m: "matching_but g 0" and f: "nLeft g + 2 \<le> f"
    and b: "bfs g = Some (True, g1)"
  shows "\<exists>m' g2. dfs_all f g1 m [1..<Suc (nLeft g1)] = Some (Done (m', g2)) \<and> shape g2 \<and>
        nLeft g2 = nLeft g \<and> nRight g2 = nRight g \<and> adj g2 = adj g \<and>
        matching_but g2 0 \<and> m < m' \<and> m' + card (free_left g2) = m + card (free_left g)"
proof -
  from bfs_post[OF sh b] obtain d where g1: "g1 = g\<lparr>dist := d\<rparr>" and sh1: "shape g1"
    and le: "dist_le g1" and ly: "layered g1" by auto
  have ok: "dist_ok g1" by (rule layered_dist_ok[OF le ly])
  have m1: "matching_but g1 0" using m by (simp add: g1)
  have f1: "nLeft g1 + 2 \<le> f" using f by (simp add: g1)
  have us: "\<forall>u\<in>set [1..<Suc (nLeft g1)]. 1 \<le> u \<and> u \<le> nLeft g1" by auto
  from dfs_all_spec[OF f1 sh1 m1 ok refl us, of m] obtain m' g2 where
    *: "dfs_all f g1 m [1..<Suc (nLeft g1)] = Some (Done (m', g2))" "shape g2"
       "nLeft g2 = nLeft g1" "nRight g2 = nRight g1" "adj g2 = adj g1"
       "matching_but g2 0" "m \<le> m'" "m' + card (free_left g2) = m + card (free_left g1)"
       "m' = m \<longrightarrow> (\<forall>u\<in>set [1..<Suc (nLeft g1)]. pairU g1 ! u = 0 \<longrightarrow> \<not> lpath g1 u)"
    by blast
  from bfs_found_source[OF sh b] obtain u where
    u: "1 \<le> u" "u \<le> nLeft g1" "pairU g1 ! u = 0" "lpath g1 u" by blast
  have "m' \<noteq> m"
  proof
    assume "m' = m"
    with *(9) u show False by auto
  qed
  with *(7) have "m < m'" by simp
  with * show ?thesis
    by (intro exI[of _ m'] exI[of _ g2]) (simp add: g1)
qed

lemma phases_spec:
  assumes f: "nLeft g0 + 2 \<le> f"
  shows "shape g \<Longrightarrow> matching_but g 0 \<Longrightarrow> nLeft g = nLeft g0 \<Longrightarrow> card (free_left g) < k \<Longrightarrow>
     \<exists>m' g'. phases k f g m = Some (Done (m', g')) \<and> shape g' \<and>
        nLeft g' = nLeft g \<and> nRight g' = nRight g \<and> adj g' = adj g \<and>
        matching_but g' 0 \<and> m' + card (free_left g') = m + card (free_left g) \<and>
        bfs g' = Some (False, g')"
proof (induction k arbitrary: g m)
  case 0
  then show ?case by simp
next
  case (Suc k)
  from bfs_total[OF Suc.prems(1)] obtain b g1 where b: "bfs g = Some (b, g1)" by blast
  from bfs_post[OF Suc.prems(1) b] obtain d where g1: "g1 = g\<lparr>dist := d\<rparr>" and sh1: "shape g1"
    by auto
  show ?case
  proof (cases b)
    case False
    with b have eq: "phases (Suc k) f g m = Some (Done (m, g1))" by simp
    from shape_len(2)[OF sh1] have "length d = Suc (nLeft g)" by (simp add: g1)
    from bfs_dist_irrelevant[OF Suc.prems(1) this] b False have "bfs g1 = Some (False, g1)"
      by (simp add: g1)
    with Suc.prems(2) sh1 show ?thesis
      unfolding eq by (intro exI[of _ m] exI[of _ g1]) (simp add: g1)
  next
    case True
    from f Suc.prems(3) have f': "nLeft g + 2 \<le> f" by simp
    from b True have bt: "bfs g = Some (True, g1)" by simp
    from phase_progress[OF Suc.prems(1,2) f' bt, of m] obtain m2 g2 where
      *: "dfs_all f g1 m [1..<Suc (nLeft g1)] = Some (Done (m2, g2))" "shape g2"
        "nLeft g2 = nLeft g" "nRight g2 = nRight g" "adj g2 = adj g"
        "matching_but g2 0" "m < m2" "m2 + card (free_left g2) = m + card (free_left g)"
      by blast
    from b True * have eq: "phases (Suc k) f g m = phases k f g2 m2" by simp
    from *(7,8) Suc.prems(4) have c: "card (free_left g2) < k" by simp
    from Suc.IH[OF *(2,6) _ c, of m2] *(3) Suc.prems(3) obtain m' g' where
      **: "phases k f g2 m2 = Some (Done (m', g'))" "shape g'"
        "nLeft g' = nLeft g2" "nRight g' = nRight g2" "adj g' = adj g2"
        "matching_but g' 0" "m' + card (free_left g') = m2 + card (free_left g2)"
        "bfs g' = Some (False, g')"
      by auto
    show ?thesis
      unfolding eq using * ** by (intro exI[of _ m'] exI[of _ g']) simp
  qed
qed

text \<open>
  \<^verbatim>\<open>maxMatching\<close> from any engine whose pairing is a matching: with \<open>nLeft + 2\<close> or more
  for the fuel it returns; the count it returns is the number of left vertices it
  matched in this call; and the layering pass, run again on the final state, fails and
  changes nothing.
\<close>

lemma maxMatching_spec:
  assumes "shape g" "matching_but g 0" "nLeft g + 2 \<le> fuel"
  shows "\<exists>k g'. maxMatching fuel g = Some (Done (k, g')) \<and> shape g' \<and>
        nLeft g' = nLeft g \<and> nRight g' = nRight g \<and> adj g' = adj g \<and>
        matching_but g' 0 \<and> k + card (free_left g') = card (free_left g) \<and>
        bfs g' = Some (False, g')"
proof -
  from card_free_left_le[of g] assms(3) have c: "card (free_left g) < fuel" by simp
  from phases_spec[OF assms(3,1,2) refl c, of 0] show ?thesis
    by (simp add: maxMatching_def)
qed

text \<open>Whatever the fuel: a result, if there is one, does not depend on it.\<close>

lemma dfs_for_mono:
  assumes IH: "\<And>g w r. dfs k g w = Some (Done r) \<Longrightarrow> dfs k' g w = Some (Done r)"
  shows "dfs_for k g u vs = Some (Done r) \<Longrightarrow> dfs_for k' g u vs = Some (Done r)"
proof (induction vs arbitrary: g)
  case Nil
  then show ?case by (simp add: dfs_for.simps)
next
  case (Cons v vs)
  show ?case
  proof (cases "idx (pairV g) v \<bind> (\<lambda>w. idx (dist g) w \<bind> (\<lambda>dw. idx (dist g) u \<bind> (\<lambda>du. Some (w, dw = du + 1))))")
    case None
    with Cons.prems show ?thesis by (auto simp: dfs_for.simps split: bind_splits)
  next
    case (Some p)
    obtain w c where p: "p = (w, c)" by (cases p)
    from Some p have ix: "idx (pairV g) v = Some w" "idx (dist g) w = Some (dist g ! w)"
      "idx (dist g) u = Some (dist g ! u)" "c \<longleftrightarrow> dist g ! w = dist g ! u + 1"
      by (auto simp: idx_eq_Some split: bind_splits)
    show ?thesis
    proof (cases c)
      case False
      with Cons ix show ?thesis by (simp add: dfs_for.simps)
    next
      case True
      with Cons.prems ix obtain b g1 where r1: "dfs k g w = Some (Done (b, g1))"
        by (auto simp: dfs_for.simps split: bind_splits outcome.splits)
      from IH[OF r1] have r1': "dfs k' g w = Some (Done (b, g1))" .
      show ?thesis
      proof (cases b)
        case True
        with Cons.prems ix r1 r1' \<open>c\<close> show ?thesis by (simp add: dfs_for.simps)
      next
        case False
        with Cons.prems ix r1 \<open>c\<close> have "dfs_for k g1 u vs = Some (Done r)"
          by (simp add: dfs_for.simps)
        from Cons.IH[OF this] False ix r1' \<open>c\<close> show ?thesis by (simp add: dfs_for.simps)
      qed
    qed
  qed
qed

lemma dfs_mono: "dfs k g u = Some (Done r) \<Longrightarrow> k \<le> k' \<Longrightarrow> dfs k' g u = Some (Done r)"
proof (induction k arbitrary: k' g u r)
  case 0
  then show ?case by (cases "u = 0") (simp_all add: dfs_no_fuel)
next
  case (Suc k)
  show ?case
  proof (cases "u = 0")
    case True
    with Suc.prems show ?thesis by simp
  next
    case False
    from Suc.prems(2) obtain j where k': "k' = Suc j" "k \<le> j" by (cases k') auto
    from Suc.prems(1) False obtain vs where
      vs: "idx (adj g) u = Some vs" "dfs_for k g u vs = Some (Done r)"
      by (auto simp: dfs_Suc split: bind_splits)
    have "dfs_for j g u vs = Some (Done r)"
      by (rule dfs_for_mono[OF _ vs(2)]) (rule Suc.IH[OF _ k'(2)])
    with False vs k' show ?thesis by (simp add: dfs_Suc)
  qed
qed

lemma dfs_all_mono:
  "dfs_all f g m us = Some (Done r) \<Longrightarrow> f \<le> f' \<Longrightarrow> dfs_all f' g m us = Some (Done r)"
proof (induction us arbitrary: g m)
  case Nil
  then show ?case by simp
next
  case (Cons u us)
  from Cons.prems(1) obtain pu where pu: "idx (pairU g) u = Some pu"
    by (auto split: bind_splits)
  show ?case
  proof (cases "pu = 0")
    case False
    with Cons pu show ?thesis by simp
  next
    case True
    with Cons.prems(1) pu obtain b g1 where r1: "dfs f g u = Some (Done (b, g1))"
      by (auto split: bind_splits outcome.splits)
    from dfs_mono[OF r1 Cons.prems(2)] have r1': "dfs f' g u = Some (Done (b, g1))" .
    from Cons.prems(1) pu True r1
    have "dfs_all f g1 (if b then m + 1 else m) us = Some (Done r)" by (simp split: if_splits)
    from Cons.IH[OF this Cons.prems(2)] pu True r1' show ?thesis by (cases b) simp_all
  qed
qed

lemma phases_mono:
  "phases k f g m = Some (Done r) \<Longrightarrow> k \<le> k' \<Longrightarrow> f \<le> f' \<Longrightarrow> phases k' f' g m = Some (Done r)"
proof (induction k arbitrary: k' g m)
  case 0
  then show ?case by simp
next
  case (Suc k)
  from Suc.prems(2) obtain j where k': "k' = Suc j" "k \<le> j" by (cases k') auto
  from Suc.prems(1) obtain b g1 where b: "bfs g = Some (b, g1)"
    by (auto split: bind_splits)
  show ?case
  proof (cases b)
    case False
    with Suc.prems(1) b k' show ?thesis by simp
  next
    case True
    with Suc.prems(1) b obtain m2 g2 where
      d: "dfs_all f g1 m [1..<Suc (nLeft g1)] = Some (Done (m2, g2))"
      and p: "phases k f g2 m2 = Some (Done r)"
      by (auto split: bind_splits outcome.splits)
    from dfs_all_mono[OF d Suc.prems(3)] Suc.IH[OF p k'(2) Suc.prems(3)] b True k'
    show ?thesis by simp
  qed
qed

lemma maxMatching_mono:
  "maxMatching fuel g = Some (Done r) \<Longrightarrow> fuel \<le> fuel' \<Longrightarrow> maxMatching fuel' g = Some (Done r)"
  unfolding maxMatching_def by (rule phases_mono)

lemma maxMatching_result:
  assumes "shape g" "matching_but g 0" "maxMatching fuel g = Some (Done (k, g'))"
  shows "shape g' \<and> nLeft g' = nLeft g \<and> nRight g' = nRight g \<and> adj g' = adj g \<and>
         matching_but g' 0 \<and> k + card (free_left g') = card (free_left g) \<and>
         bfs g' = Some (False, g')"
proof -
  let ?F = "max fuel (nLeft g + 2)"
  from maxMatching_mono[OF assms(3), of ?F] have "maxMatching ?F g = Some (Done (k, g'))" by simp
  with maxMatching_spec[OF assms(1,2), of ?F] show ?thesis by simp
qed

section \<open>Engines\<close>

text \<open>
  \<open>engine es g\<close>: the engine \<open>g\<close> is what a caller can hold. It was constructed, then
  received the calls \<^verbatim>\<open>addEdge(u, v)\<close> for the pairs of \<open>es\<close> in this order (accepted or
  not), with any number of completed \<^verbatim>\<open>maxMatching\<close> calls in between.
\<close>

inductive engine :: "(int \<times> int) list \<Rightarrow> BipartiteGraph \<Rightarrow> bool" where
  engine_new: "engine [] (new_BipartiteGraph l r)"
| engine_addEdge: "engine es g \<Longrightarrow> addEdge g u v = Some (w, g') \<Longrightarrow> engine (es @ [(u, v)]) g'"
| engine_maxMatching: "engine es g \<Longrightarrow> maxMatching fuel g = Some (Done (k, g')) \<Longrightarrow> engine es g'"

text \<open>The edges a graph of the given size accepts among the calls \<open>es\<close>.\<close>

definition accepted :: "nat \<Rightarrow> nat \<Rightarrow> (int \<times> int) list \<Rightarrow> (nat \<times> nat) set" where
  "accepted l r es =
     {(nat u, nat v) |u v. (u, v) \<in> set es \<and> 1 \<le> u \<and> u \<le> int l \<and> 1 \<le> v \<and> v \<le> int r}"

definition edges :: "BipartiteGraph \<Rightarrow> (nat \<times> nat) set" where
  "edges g = {(u, v). 1 \<le> u \<and> u \<le> nLeft g \<and> v \<in> set (adj g ! u)}"

lemma accepted_Nil [simp]: "accepted l r [] = {}"
  by (simp add: accepted_def)

lemma accepted_snoc:
  "accepted l r (es @ [(u, v)]) =
     (if 1 \<le> u \<and> u \<le> int l \<and> 1 \<le> v \<and> v \<le> int r then insert (nat u, nat v) (accepted l r es)
      else accepted l r es)"
  by (auto simp: accepted_def)

lemma matching_but_new: "matching_but (new_BipartiteGraph l r) 0"
  by (auto simp: matching_but_def new_BipartiteGraph_def)

lemma edges_new: "edges (new_BipartiteGraph l r) = {}"
  by (auto simp: edges_def new_BipartiteGraph_def)

lemma addEdge_cases:
  assumes "shape g" "addEdge g u v = Some (w, g')"
  obtains (rejected) "u < 1 \<or> int (nLeft g) < u \<or> v < 1 \<or> int (nRight g) < v" "w = Some InvalidEdge" "g' = g"
  | (accepted) "1 \<le> u" "u \<le> int (nLeft g)" "1 \<le> v" "v \<le> int (nRight g)" "w = None"
      "g' = g\<lparr>adj := (adj g)[nat u := adj g ! nat u @ [nat v]]\<rparr>"
proof (cases "u < 1 \<or> int (nLeft g) < u \<or> v < 1 \<or> int (nRight g) < v")
  case True
  then have "addEdge g u v = Some (Some InvalidEdge, g)" by (simp add: addEdge_def)
  with assms(2) have r: "w = Some InvalidEdge" "g' = g" by simp_all
  show ?thesis by (rule rejected[OF True r])
next
  case False
  then have b: "1 \<le> u" "u \<le> int (nLeft g)" "1 \<le> v" "v \<le> int (nRight g)" by simp_all
  then have "nat u < length (adj g)" using assms(1) by (simp add: shape_len)
  with False have "addEdge g u v = Some (None, g\<lparr>adj := (adj g)[nat u := adj g ! nat u @ [nat v]]\<rparr>)"
    by (simp add: addEdge_def idx_in upd_in)
  with assms(2) have r: "w = None" "g' = g\<lparr>adj := (adj g)[nat u := adj g ! nat u @ [nat v]]\<rparr>"
    by simp_all
  show ?thesis by (rule accepted[OF b r])
qed

lemma addEdge_edges:
  assumes "shape g" "addEdge g u v = Some (w, g')"
  shows "edges g' = (if 1 \<le> u \<and> u \<le> int (nLeft g) \<and> 1 \<le> v \<and> v \<le> int (nRight g)
                     then insert (nat u, nat v) (edges g) else edges g)"
  using assms
proof (cases rule: addEdge_cases)
  case rejected
  from rejected(1) have "\<not> (1 \<le> u \<and> u \<le> int (nLeft g) \<and> 1 \<le> v \<and> v \<le> int (nRight g))"
    by linarith
  then show ?thesis unfolding rejected(3) by (simp only: if_False)
next
  case accepted
  let ?a = "nat u" and ?b = "nat v"
  have a: "1 \<le> ?a" "?a \<le> nLeft g" "?a < length (adj g)"
    using accepted(1,2) assms(1) by (simp_all add: shape_len)
  have g': "nLeft g' = nLeft g" "adj g' = (adj g)[?a := adj g ! ?a @ [?b]]"
    by (simp_all add: accepted(6))
  have "edges g' = insert (?a, ?b) (edges g)"
  proof (intro set_eqI iffI)
    fix e assume "e \<in> edges g'"
    then obtain x y where e: "e = (x, y)" "1 \<le> x" "x \<le> nLeft g" "y \<in> set (adj g' ! x)"
      by (auto simp: edges_def g'(1))
    show "e \<in> insert (?a, ?b) (edges g)"
    proof (cases "x = ?a")
      case True
      with e a have "y = ?b \<or> y \<in> set (adj g ! x)" by (auto simp: g'(2))
      with e True show ?thesis by (auto simp: edges_def)
    next
      case False
      with e show ?thesis by (simp add: g'(2) edges_def)
    qed
  next
    fix e assume "e \<in> insert (?a, ?b) (edges g)"
    then consider "e = (?a, ?b)" | "e \<in> edges g" by auto
    then show "e \<in> edges g'"
    proof cases
      case 1
      with a show ?thesis by (simp add: edges_def g')
    next
      case 2
      then obtain x y where e: "e = (x, y)" "1 \<le> x" "x \<le> nLeft g" "y \<in> set (adj g ! x)"
        by (auto simp: edges_def)
      with a show ?thesis by (cases "x = ?a") (simp_all add: edges_def g')
    qed
  qed
  with accepted(1-4) show ?thesis by simp
qed

lemma addEdge_matching:
  assumes "shape g" "addEdge g u v = Some (w, g')" "matching_but g 0"
  shows "matching_but g' 0"
  using assms(1,2)
proof (cases rule: addEdge_cases)
  case rejected
  with assms(3) show ?thesis by simp
next
  case accepted
  have a: "nat u < length (adj g)" using accepted(1,2) assms(1) by (simp add: shape_len)
  have "set (adj g ! x) \<subseteq> set ((adj g)[nat u := adj g ! nat u @ [nat v]] ! x)" for x
    using a by (cases "x = nat u") auto
  with assms(3) show ?thesis
    unfolding accepted(6) matching_but_def by (simp add: subset_iff)
qed

lemma addEdge_static:
  assumes "shape g" "addEdge g u v = Some (w, g')"
  shows "nLeft g' = nLeft g \<and> nRight g' = nRight g \<and> pairU g' = pairU g \<and> pairV g' = pairV g \<and>
         dist g' = dist g"
  using assms by (cases rule: addEdge_cases) auto

text \<open>What holds of every engine.\<close>

lemma engine_inv:
  "engine es g \<Longrightarrow> shape g \<and> matching_but g 0 \<and> edges g = accepted (nLeft g) (nRight g) es"
proof (induction rule: engine.induct)
  case (engine_new l r)
  show ?case
    by (simp add: shape_new matching_but_new edges_new)
next
  case (engine_addEdge es g u v w g')
  then have sh: "shape g" and m: "matching_but g 0"
    and e: "edges g = accepted (nLeft g) (nRight g) es" by simp_all
  from addEdge_static[OF sh engine_addEdge.hyps(2)]
  have st: "nLeft g' = nLeft g" "nRight g' = nRight g" by simp_all
  show ?case
    using addEdge_shape[OF sh engine_addEdge.hyps(2)] addEdge_matching[OF sh engine_addEdge.hyps(2) m]
      addEdge_edges[OF sh engine_addEdge.hyps(2)] e st
    by (simp add: accepted_snoc)
next
  case (engine_maxMatching es g fuel k g')
  then have sh: "shape g" and m: "matching_but g 0"
    and e: "edges g = accepted (nLeft g) (nRight g) es" by simp_all
  from maxMatching_result[OF sh m engine_maxMatching.hyps(2)] e show ?case
    by (simp add: edges_def)
qed

section \<open>Matchings of the graph\<close>

text \<open>A matching of an edge set: a subset with no two edges sharing an endpoint.\<close>

definition is_matching :: "(nat \<times> nat) set \<Rightarrow> (nat \<times> nat) set \<Rightarrow> bool" where
  "is_matching E M \<longleftrightarrow>
     M \<subseteq> E \<and> (\<forall>e\<in>M. \<forall>e'\<in>M. fst e = fst e' \<or> snd e = snd e' \<longrightarrow> e = e')"

text \<open>The pairs the engine holds.\<close>

definition matched_left :: "BipartiteGraph \<Rightarrow> nat set" where
  "matched_left g = {u. 1 \<le> u \<and> u \<le> nLeft g \<and> pairU g ! u \<noteq> 0}"

definition matched_pairs :: "BipartiteGraph \<Rightarrow> (nat \<times> nat) set" where
  "matched_pairs g = (\<lambda>u. (u, pairU g ! u)) ` matched_left g"

lemma finite_matched_left [simp]: "finite (matched_left g)"
proof -
  have "matched_left g \<subseteq> {1..nLeft g}" by (auto simp: matched_left_def)
  then show ?thesis by (rule finite_subset) simp
qed


lemma matched_free_partition: "card (matched_left g) + card (free_left g) = nLeft g"
proof -
  have "matched_left g \<union> free_left g = {1..nLeft g}" "matched_left g \<inter> free_left g = {}"
    by (auto simp: matched_left_def free_left_def)
  then have "card {1..nLeft g} = card (matched_left g) + card (free_left g)"
    using card_Un_disjoint[of "matched_left g" "free_left g"] by simp
  then show ?thesis by simp
qed


lemma matched_pairs_matching:
  assumes "matching_but g 0"
  shows "is_matching (edges g) (matched_pairs g)"
  unfolding is_matching_def
proof (intro conjI ballI impI)
  show "matched_pairs g \<subseteq> edges g"
    using assms by (auto simp: matched_pairs_def matched_left_def edges_def matching_but_def)
next
  fix e e' assume e: "e \<in> matched_pairs g" "e' \<in> matched_pairs g"
    and s: "fst e = fst e' \<or> snd e = snd e'"
  from e obtain u u' where u: "e = (u, pairU g ! u)" "1 \<le> u" "u \<le> nLeft g" "pairU g ! u \<noteq> 0"
    and u': "e' = (u', pairU g ! u')" "1 \<le> u'" "u' \<le> nLeft g" "pairU g ! u' \<noteq> 0"
    by (auto simp: matched_pairs_def matched_left_def)
  from s show "e = e'"
  proof
    assume "fst e = fst e'"
    with u u' show ?thesis by simp
  next
    assume "snd e = snd e'"
    with u u' have pe: "pairU g ! u = pairU g ! u'" by simp
    from matching_butD1[OF assms u(2,3,4)] have a: "pairV g ! (pairU g ! u) = u" by (rule conjunct1)
    from matching_butD1[OF assms u'(2,3,4)] have b: "pairV g ! (pairU g ! u') = u'" by (rule conjunct1)
    have "u = pairV g ! (pairU g ! u)" by (simp only: a)
    also have "\<dots> = pairV g ! (pairU g ! u')" by (simp only: pe)
    also have "\<dots> = u'" by (rule b)
    finally have "u = u'" .
    with u u' show ?thesis by simp
  qed
qed

subsection \<open>No matching is larger once the layering pass fails\<close>



section \<open>Reading the pairs\<close>

definition pair_list :: "BipartiteGraph \<Rightarrow> (nat \<times> nat) list" where
  "pair_list g =
     map (\<lambda>u. (u, pairU g ! u)) (filter (\<lambda>u. pairU g ! u \<noteq> 0) [1..<Suc (nLeft g)])"

lemma collect_pairs_eq:
  "\<forall>u\<in>set us. u < length (pairU g) \<Longrightarrow>
   collect_pairs g result us =
     Some (result @ map (\<lambda>u. (u, pairU g ! u)) (filter (\<lambda>u. pairU g ! u \<noteq> 0) us))"
  by (induction us arbitrary: result) (simp_all add: idx_in)

lemma getMatchingPairs_eq: "shape g \<Longrightarrow> getMatchingPairs g = Some (pair_list g)"
  unfolding getMatchingPairs_def pair_list_def
  by (subst collect_pairs_eq) (auto simp: shape_len)

lemma filter_matched_set: "set (filter (\<lambda>u. pairU g ! u \<noteq> 0) [1..<Suc (nLeft g)]) = matched_left g"
  by (auto simp: matched_left_def)

lemma set_pair_list: "set (pair_list g) = matched_pairs g"
  unfolding pair_list_def matched_pairs_def by (simp only: set_map filter_matched_set)

lemma length_pair_list: "length (pair_list g) = card (matched_left g)"
proof -
  let ?xs = "filter (\<lambda>u. pairU g ! u \<noteq> 0) [1..<Suc (nLeft g)]"
  have "length (pair_list g) = length ?xs" by (simp only: pair_list_def length_map)
  also have "\<dots> = card (set ?xs)" by (rule distinct_card[symmetric]) simp
  also have "\<dots> = card (matched_left g)" by (simp only: filter_matched_set)
  finally show ?thesis .
qed

lemma fst_pair_list: "map fst (pair_list g) = filter (\<lambda>u. pairU g ! u \<noteq> 0) [1..<Suc (nLeft g)]"
  by (simp add: pair_list_def comp_def)

lemma sorted_pair_list: "sorted_wrt (<) (map fst (pair_list g))"
  unfolding fst_pair_list by (rule sorted_wrt_filter) simp

section \<open>The pairing is a matching\<close>

definition valid_pairing :: "BipartiteGraph \<Rightarrow> bool" where
  "valid_pairing g \<longleftrightarrow>
     (\<forall>u v. 1 \<le> u \<and> u \<le> nLeft g \<and> 1 \<le> v \<and> v \<le> nRight g \<longrightarrow>
        (pairU g ! u = v \<longleftrightarrow> pairV g ! v = u)) \<and>
     (\<forall>u\<le>nLeft g. pairU g ! u \<le> nRight g) \<and>
     (\<forall>v\<le>nRight g. pairV g ! v \<le> nLeft g) \<and>
     distinct (map fst (pair_list g)) \<and> distinct (map snd (pair_list g))"

lemma matching_valid_pairing:
  assumes sh: "shape g" and m: "matching_but g 0"
  shows "valid_pairing g"
proof -
  have bi: "pairU g ! u = v \<longleftrightarrow> pairV g ! v = u"
    if b: "1 \<le> u \<and> u \<le> nLeft g \<and> 1 \<le> v \<and> v \<le> nRight g" for u v
  proof
    assume e: "pairU g ! u = v"
    with b have "pairU g ! u \<noteq> 0" by simp
    from matching_butD1[OF m _ _ this] b e show "pairV g ! v = u" by simp
  next
    assume e: "pairV g ! v = u"
    with b have "pairV g ! v \<noteq> 0" by simp
    from matching_butD2[OF m _ _ _ this] b e show "pairU g ! u = v" by simp
  qed
  have inj: "inj_on (\<lambda>u. pairU g ! u) (matched_left g)"
  proof (rule inj_onI)
    fix x y assume x: "x \<in> matched_left g" and y: "y \<in> matched_left g"
      and pe: "pairU g ! x = pairU g ! y"
    from x have a: "pairV g ! (pairU g ! x) = x"
      using matching_butD1[OF m, of x] by (simp add: matched_left_def)
    from y have b: "pairV g ! (pairU g ! y) = y"
      using matching_butD1[OF m, of y] by (simp add: matched_left_def)
    have "x = pairV g ! (pairU g ! x)" by (simp only: a)
    also have "\<dots> = pairV g ! (pairU g ! y)" by (simp only: pe)
    also have "\<dots> = y" by (rule b)
    finally show "x = y" .
  qed
  have d1: "distinct (map fst (pair_list g))" by (simp add: fst_pair_list)
  let ?xs = "filter (\<lambda>u. pairU g ! u \<noteq> 0) [1..<Suc (nLeft g)]"
  have ms: "map snd (pair_list g) = map (\<lambda>u. pairU g ! u) ?xs"
    by (simp add: pair_list_def comp_def)
  have "distinct ?xs" by simp
  moreover have "inj_on (\<lambda>u. pairU g ! u) (set ?xs)" using inj by (simp only: filter_matched_set)
  ultimately have d2: "distinct (map snd (pair_list g))"
    unfolding ms by (simp only: distinct_map simp_thms)
  from bi d1 d2 shape_pairU[OF sh] shape_pairV[OF sh] show ?thesis
    unfolding valid_pairing_def by blast
qed

text \<open>
  \<open>at_phase es g\<close>: \<open>g\<close> is the state at the head of the loop \<^verbatim>\<open>while (bfs())\<close> of a
  \<^verbatim>\<open>maxMatching\<close> call on an engine: the engine itself, or the state after a completed
  phase (a layering pass that succeeded and the loop of searches after it).
\<close>

inductive at_phase :: "(int \<times> int) list \<Rightarrow> BipartiteGraph \<Rightarrow> bool" where
  at_phase_start: "engine es g \<Longrightarrow> at_phase es g"
| at_phase_next: "at_phase es g \<Longrightarrow> bfs g = Some (True, g1) \<Longrightarrow>
     dfs_all f g1 m [1..<Suc (nLeft g1)] = Some (Done (m', g2)) \<Longrightarrow> at_phase es g2"

lemma phase_result:
  assumes sh: "shape g" and m: "matching_but g 0" and b: "bfs g = Some (True, g1)"
    and d: "dfs_all f g1 k [1..<Suc (nLeft g1)] = Some (Done (k', g2))"
  shows "shape g2 \<and> matching_but g2 0 \<and> nLeft g2 = nLeft g \<and> nRight g2 = nRight g \<and> adj g2 = adj g"
proof -
  let ?F = "max f (nLeft g + 2)"
  from dfs_all_mono[OF d, of ?F] have "dfs_all ?F g1 k [1..<Suc (nLeft g1)] = Some (Done (k', g2))"
    by simp
  with phase_progress[OF sh m _ b, of ?F k] show ?thesis by simp
qed

lemma at_phase_inv: "at_phase es g \<Longrightarrow> shape g \<and> matching_but g 0"
proof (induction rule: at_phase.induct)
  case (at_phase_start es g)
  with engine_inv show ?case by blast
next
  case (at_phase_next es g g1 f m m' g2)
  with phase_result[of g g1 f m m' g2] show ?case by simp
qed

section \<open>Engines fed only edges\<close>

lemma addEdges_engine:
  "engine es0 g \<Longrightarrow> addEdges g es = Some g' \<Longrightarrow> engine (es0 @ es) g'"
proof (induction es arbitrary: es0 g)
  case Nil
  then show ?case by simp
next
  case (Cons e es)
  from Cons.prems(2) obtain w g1 where a: "addEdge g (fst e) (snd e) = Some (w, g1)"
    and r: "addEdges g1 es = Some g'"
    by (auto split: bind_splits)
  from engine_addEdge[OF Cons.prems(1) a] have "engine (es0 @ [e]) g1" by simp
  from Cons.IH[OF this r] show ?case by simp
qed

lemma addEdges_pairs:
  "shape g \<Longrightarrow> addEdges g es = Some g' \<Longrightarrow>
   nLeft g' = nLeft g \<and> nRight g' = nRight g \<and> pairU g' = pairU g \<and> pairV g' = pairV g"
proof (induction es arbitrary: g)
  case Nil
  then show ?case by simp
next
  case (Cons e es)
  from Cons.prems(2) obtain w g1 where a: "addEdge g (fst e) (snd e) = Some (w, g1)"
    and r: "addEdges g1 es = Some g'"
    by (auto split: bind_splits)
  from addEdge_static[OF Cons.prems(1) a] Cons.IH[OF addEdge_shape[OF Cons.prems(1) a] r]
  show ?case by simp
qed

lemma fresh_engine:
  assumes "addEdges (new_BipartiteGraph l r) es = Some g"
  shows "engine es g \<and> nLeft g = l \<and> nRight g = r \<and> free_left g = {1..l} \<and> matched_left g = {}"
proof -
  from addEdges_engine[OF engine_new assms] have e: "engine es g" by simp
  from addEdges_pairs[OF shape_new assms] have
    p: "nLeft g = l" "nRight g = r" "pairU g = replicate (Suc l) 0"
    by (simp_all add: new_BipartiteGraph_def)
  have "free_left g = {1..l}" "matched_left g = {}"
    using p by (auto simp: free_left_def matched_left_def)
  with e p show ?thesis by simp
qed

section \<open>No index leaves its vector\<close>

definition res_shape :: "nat \<Rightarrow> (nat \<times> BipartiteGraph) outcome option \<Rightarrow> bool" where
  "res_shape n r \<longleftrightarrow>
     (case r of None \<Rightarrow> False | Some Timeout \<Rightarrow> True
      | Some (Done (m', g')) \<Rightarrow> shape g' \<and> nLeft g' = n)"

lemma res_shape_simps [simp]:
  "res_shape n None = False"
  "res_shape n (Some Timeout) = True"
  "res_shape n (Some (Done (m', g'))) = (shape g' \<and> nLeft g' = n)"
  by (simp_all add: res_shape_def)

lemma dfs_all_safe:
  "shape g \<Longrightarrow> \<forall>u\<in>set us. u \<le> nLeft g \<Longrightarrow> res_shape (nLeft g) (dfs_all f g m us)"
proof (induction us arbitrary: g m)
  case Nil
  then show ?case by simp
next
  case (Cons u us)
  have ix: "idx (pairU g) u = Some (pairU g ! u)"
    using Cons.prems by (simp add: idx_in shape_len)
  show ?case
  proof (cases "pairU g ! u = 0")
    case False
    with Cons ix show ?thesis by simp
  next
    case True
    from Cons.prems have u: "u \<le> nLeft g" by simp
    from dfs_safe_all[OF Cons.prems(1) u, of f] have safe: "dfs_safe g u (dfs f g u)" .
    show ?thesis
    proof (cases "dfs f g u")
      case None
      with safe show ?thesis by simp
    next
      case (Some r)
      show ?thesis
      proof (cases r)
        case Timeout
        with Some True ix show ?thesis by simp
      next
        case (Done p)
        obtain b g1 where p: "p = (b, g1)" by (cases p)
        from safe Some Done p have sh1: "shape g1" and n1: "nLeft g1 = nLeft g"
          by (simp_all add: dfs_frame_def)
        have "res_shape (nLeft g) (dfs_all f g1 k us)" for k
          using Cons.IH[OF sh1, of k] Cons.prems(2) n1 by simp
        with Some Done p True ix show ?thesis by (cases b) simp_all
      qed
    qed
  qed
qed

lemma phases_safe: "shape g \<Longrightarrow> phases k f g m \<noteq> None"
proof (induction k arbitrary: g m)
  case 0
  then show ?case by simp
next
  case (Suc k)
  from bfs_total[OF Suc.prems] obtain b g1 where b: "bfs g = Some (b, g1)" by blast
  from bfs_post[OF Suc.prems b] have sh1: "shape g1" by simp
  show ?case
  proof (cases b)
    case False
    with b show ?thesis by simp
  next
    case True
    from dfs_all_safe[OF sh1, of "[1..<Suc (nLeft g1)]" f m]
    have s: "res_shape (nLeft g1) (dfs_all f g1 m [1..<Suc (nLeft g1)])" by simp
    show ?thesis
    proof (cases "dfs_all f g1 m [1..<Suc (nLeft g1)]")
      case None
      with s show ?thesis by simp
    next
      case (Some r)
      show ?thesis
      proof (cases r)
        case Timeout
        with Some b True show ?thesis by simp
      next
        case (Done p)
        obtain m2 g2 where p: "p = (m2, g2)" by (cases p)
        from s Some Done p have "shape g2" by simp
        from Suc.IH[OF this, of m2] Some Done p b True show ?thesis by simp
      qed
    qed
  qed
qed

section \<open>A small engine, for the instances below\<close>

text \<open>One left vertex, one right vertex, the edge between them: before and after the matching.\<close>

definition ex_graph :: BipartiteGraph where
  "ex_graph = \<lparr> nLeft = 1, nRight = 1, adj = [[], [1]],
                 dist = [INF_const, INF_const], pairU = [0, 0], pairV = [0, 0] \<rparr>"

definition ex_done :: BipartiteGraph where
  "ex_done = \<lparr> nLeft = 1, nRight = 1, adj = [[], [1]],
                dist = [INF_const, INF_const], pairU = [0, 1], pairV = [0, 1] \<rparr>"

lemmas run_simps =
  maxMatching_def bfs_def idx_def upd_def dfs.simps dfs_for.simps upt_rec INF_const_def
  getMatchingPairs_def new_BipartiteGraph_def addEdge_def numeral_3_eq_3

lemma ex_addEdges: "addEdges (new_BipartiteGraph 1 1) [(1, 1)] = Some ex_graph"
  by (simp add: run_simps ex_graph_def)

lemma ex_engine: "engine [(1, 1)] ex_graph"
  using fresh_engine[OF ex_addEdges] by simp

lemma ex_run: "maxMatching 3 ex_graph = Some (Done (1, ex_done))"
  by (simp add: run_simps ex_graph_def ex_done_def)

lemma ex_again: "maxMatching 3 ex_done = Some (Done (0, ex_done))"
  by (simp add: run_simps ex_done_def)

lemma ex_engine_done: "engine [(1, 1)] ex_done"
  by (rule engine_maxMatching[OF ex_engine ex_run])

lemma ex_pairs: "getMatchingPairs ex_done = Some [(1, 1)]"
  by (simp add: run_simps ex_done_def)

section \<open>The claims\<close>

text \<open>
  C3. On every engine \<^verbatim>\<open>maxMatching\<close> terminates without failing: the layering pass
  returns (\<open>bfs_while\<close> is a total function), every search returns within depth
  \<open>nLeft + 2\<close>, and the loop of phases ends within \<open>nLeft + 1\<close> rounds. So with
  \<open>nLeft + 2\<close> or more for the fuel the model returns \<open>Done\<close>: neither \<open>Timeout\<close> nor an
  index out of bounds.
\<close>

theorem maxMatching_terminates:
  assumes "engine es g" "nLeft g + 2 \<le> fuel"
  shows "(\<exists>found g1. bfs g = Some (found, g1)) \<and>
         (\<forall>g1 u. bfs g = Some (True, g1) \<and> u \<le> nLeft g \<longrightarrow>
            (\<exists>found g2. dfs fuel g1 u = Some (Done (found, g2)))) \<and>
         (\<exists>k g'. maxMatching fuel g = Some (Done (k, g')))"
proof -
  from engine_inv[OF assms(1)] have sh: "shape g" and m: "matching_but g 0" by simp_all
  have "\<exists>found g2. dfs fuel g1 u = Some (Done (found, g2))"
    if "bfs g = Some (True, g1) \<and> u \<le> nLeft g" for g1 u
  proof -
    from that bfs_post[OF sh, of True g1] have "shape g1" "dist_le g1" "layered g1" "nLeft g1 = nLeft g"
      by auto
    with dfs_returns[of g1 u fuel] layered_dist_ok[of g1] that assms(2) show ?thesis by auto
  qed
  with bfs_total[OF sh] maxMatching_spec[OF sh m assms(2)] show ?thesis by blast
qed

theorem maxMatching_terminates_witness:
  "\<exists>k g'. maxMatching 3 ex_graph = Some (Done (k, g'))"
  using maxMatching_terminates[OF ex_engine, of 3] by (simp add: ex_graph_def)

text \<open>
  C10. On every engine no index used by \<^verbatim>\<open>bfs\<close>, \<^verbatim>\<open>dfs\<close>, \<^verbatim>\<open>maxMatching\<close> (or
  \<^verbatim>\<open>getMatchingPairs\<close>) leaves its vector: none of them returns \<open>None\<close>, whatever the
  fuel. (The lemmas \<open>bfs_total\<close>, \<open>dfs_safe_all\<close> and \<open>phases_safe\<close> show the same
  from every state of the right shape, which covers the states inside a run.)
\<close>

theorem no_index_out_of_bounds:
  assumes "engine es g"
  shows "bfs g \<noteq> None \<and> maxMatching fuel g \<noteq> None \<and> getMatchingPairs g \<noteq> None \<and>
         (\<forall>u\<le>nLeft g. dfs fuel g u \<noteq> None) \<and>
         (\<forall>found g1. bfs g = Some (found, g1) \<longrightarrow> (\<forall>u\<le>nLeft g. dfs fuel g1 u \<noteq> None))"
proof -
  from engine_inv[OF assms] have sh: "shape g" by simp
  have d: "dfs fuel h u \<noteq> None" if "shape h" "u \<le> nLeft h" for h u
    using dfs_safe_all[OF that, of fuel] by (cases "dfs fuel h u") simp_all
  have "dfs fuel g1 u \<noteq> None" if "bfs g = Some (found, g1)" "u \<le> nLeft g" for found g1 u
  proof -
    from bfs_post[OF sh that(1)] have "shape g1" "nLeft g1 = nLeft g" by auto
    with d[of g1 u] that(2) show ?thesis by simp
  qed
  with bfs_total[OF sh] phases_safe[OF sh, of fuel fuel 0] getMatchingPairs_eq[OF sh] d[OF sh]
  show ?thesis by (auto simp: maxMatching_def)
qed

theorem no_index_out_of_bounds_witness:
  "bfs ex_graph \<noteq> None \<and> maxMatching 3 ex_graph \<noteq> None \<and> getMatchingPairs ex_graph \<noteq> None"
  using no_index_out_of_bounds[OF ex_engine, of 3] by simp

text \<open>
  C2. At the head of every phase of \<^verbatim>\<open>maxMatching\<close> on an engine, and so when it
  returns, the pairing is a valid matching: \<open>pairU[u] = v\<close> exactly when \<open>pairV[v] = u\<close>
  for vertex ids \<open>u\<close>, \<open>v\<close>; every pair value is 0 or an id within bounds; and in the
  list of matched pairs no left vertex and no right vertex occurs twice.
\<close>

theorem pairing_valid_after_every_phase:
  assumes "at_phase es g"
  shows "valid_pairing g \<and>
         (\<forall>fuel k g'. maxMatching fuel g = Some (Done (k, g')) \<longrightarrow> valid_pairing g')"
proof -
  from at_phase_inv[OF assms] have sh: "shape g" and m: "matching_but g 0" by simp_all
  have "valid_pairing g'" if "maxMatching fuel g = Some (Done (k, g'))" for fuel k g'
    using maxMatching_result[OF sh m that] by (simp add: matching_valid_pairing)
  with matching_valid_pairing[OF sh m] show ?thesis by blast
qed

theorem pairing_valid_after_every_phase_witness:
  "valid_pairing ex_graph \<and> valid_pairing ex_done"
  using pairing_valid_after_every_phase[OF at_phase_start[OF ex_engine]] ex_run by blast

text \<open>
  C4. The source presents the value of \<^verbatim>\<open>maxMatching\<close> as the size of the matching (the
  comment above the function, the label \<^verbatim>\<open>Maximum Matching Size\<close> in \<^verbatim>\<open>main\<close>), which is
  what C4 says. The code misses it on an engine whose matching was computed before: the
  counter is a local variable started at 0 and the pairs of the earlier call are kept.
  On the engine with one vertex on each side and the edge \<open>(1, 1)\<close> the first call
  returns 1, the second call returns 0, and \<^verbatim>\<open>getMatchingPairs\<close> then returns one pair.
\<close>

theorem count_pairs_second_call:
  "addEdges (new_BipartiteGraph 1 1) [(1, 1)] = Some ex_graph \<and>
   maxMatching 3 ex_graph = Some (Done (1, ex_done)) \<and>
   maxMatching 3 ex_done = Some (Done (0, ex_done)) \<and>
   getMatchingPairs ex_done = Some [(1, 1)] \<and> length [(1 :: nat, 1 :: nat)] \<noteq> 0"
  using ex_addEdges ex_run ex_again ex_pairs by simp

text \<open>
  Where the code does meet C4: on an engine that was only constructed and fed edges, the
  value of the call is the number of pairs \<^verbatim>\<open>getMatchingPairs\<close> returns after it.
\<close>

lemma fresh_count_pairs:
  assumes "addEdges (new_BipartiteGraph l r) es = Some g" "maxMatching fuel g = Some (Done (k, g'))"
  shows "getMatchingPairs g' = Some (pair_list g') \<and> length (pair_list g') = k"
proof -
  from fresh_engine[OF assms(1)] have e: "engine es g" and f: "matched_left g = {}" by simp_all
  from engine_inv[OF e] have sh: "shape g" and m: "matching_but g 0" by simp_all
  from maxMatching_result[OF sh m assms(2)] have sh': "shape g'" and n: "nLeft g' = nLeft g"
    and c: "k + card (free_left g') = card (free_left g)" by simp_all
  from matched_free_partition[of g] matched_free_partition[of g'] n c f
  have "length (pair_list g') = k"
    by (simp add: length_pair_list)
  with getMatchingPairs_eq[OF sh'] show ?thesis by simp
qed

text \<open>
  C5. The pair set is the same after a second call, as C5 says; the count is not. It is
  the same defect as in C4: the counter restarts at 0 while the pairs are kept, so the
  second call reports 0 where the first reported the size of the matching. On the
  engine with one vertex on each side and the edge \<open>(1, 1)\<close> the first call returns 1
  and the second returns 0, with the pairs unchanged.
\<close>

theorem second_call_count_differs:
  "addEdges (new_BipartiteGraph 1 1) [(1, 1)] = Some ex_graph \<and>
   maxMatching 3 ex_graph = Some (Done (1, ex_done)) \<and>
   getMatchingPairs ex_done = Some [(1, 1)] \<and>
   maxMatching 3 ex_done = Some (Done (0, ex_done)) \<and> (1 :: nat) \<noteq> 0"
  using ex_addEdges ex_run ex_pairs ex_again by simp

text \<open>
  The run of a second call on any engine: the layering pass finds no augmenting path, so
  the call leaves the engine, and with it the pair set, exactly as the first call left
  it; its counter was never incremented.
\<close>

lemma second_call_run:
  assumes "engine es g" "maxMatching fuel g = Some (Done (k, g'))" "0 < fuel'"
  shows "maxMatching fuel' g' = Some (Done (0, g'))"
proof -
  from engine_inv[OF assms(1)] have sh: "shape g" and m: "matching_but g 0" by simp_all
  from maxMatching_result[OF sh m assms(2)] have b: "bfs g' = Some (False, g')" by simp
  from assms(3) obtain j where "fuel' = Suc j" by (cases fuel') auto
  with b show ?thesis by (simp add: maxMatching_def)
qed

text \<open>
  C7. On every engine \<^verbatim>\<open>getMatchingPairs\<close> returns \<open>pair_list\<close>: the pairs
  \<open>(u, pairU[u])\<close> with \<open>pairU[u] \<noteq> 0\<close>, for \<open>u\<close> from 1 to \<open>nLeft\<close> in this order, so with
  strictly increasing left ids. Each returned pair lies within the bounds and is one of
  the pairs passed to \<^verbatim>\<open>addEdge\<close>. On an engine that was only constructed and fed edges
  the result is empty. (The function returns a list and nothing else: the engine is not
  changed.)
\<close>

theorem getMatchingPairs_spec:
  assumes "engine es g"
  shows "getMatchingPairs g = Some (pair_list g) \<and>
         sorted_wrt (<) (map fst (pair_list g)) \<and>
         (\<forall>p\<in>set (pair_list g). 1 \<le> fst p \<and> fst p \<le> nLeft g \<and> 1 \<le> snd p \<and> snd p \<le> nRight g \<and>
              (int (fst p), int (snd p)) \<in> set es) \<and>
         (\<forall>l r. addEdges (new_BipartiteGraph l r) es = Some g \<longrightarrow> getMatchingPairs g = Some [])"
proof -
  from engine_inv[OF assms] have sh: "shape g" and m: "matching_but g 0"
    and e: "edges g = accepted (nLeft g) (nRight g) es" by simp_all
  have p: "1 \<le> fst p \<and> fst p \<le> nLeft g \<and> 1 \<le> snd p \<and> snd p \<le> nRight g \<and>
           (int (fst p), int (snd p)) \<in> set es" if "p \<in> set (pair_list g)" for p
  proof -
    from that have "p \<in> matched_pairs g" by (simp only: set_pair_list)
    with matched_pairs_matching[OF m] have "p \<in> edges g" by (auto simp: is_matching_def)
    with e have "p \<in> accepted (nLeft g) (nRight g) es" by simp
    then obtain a b where ab: "p = (nat a, nat b)" "(a, b) \<in> set es" "1 \<le> a" "a \<le> int (nLeft g)"
      "1 \<le> b" "b \<le> int (nRight g)"
      by (auto simp: accepted_def)
    from ab(3-6) have "1 \<le> nat a" "nat a \<le> nLeft g" "1 \<le> nat b" "nat b \<le> nRight g"
      "int (nat a) = a" "int (nat b) = b" by linarith+
    with ab(1,2) show ?thesis by simp
  qed
  have "getMatchingPairs g = Some []" if "addEdges (new_BipartiteGraph l r) es = Some g" for l r
  proof -
    from fresh_engine[OF that] have "matched_left g = {}" by simp
    then have "length (pair_list g) = 0" by (simp add: length_pair_list)
    with getMatchingPairs_eq[OF sh] show ?thesis by simp
  qed
  with getMatchingPairs_eq[OF sh] sorted_pair_list[of g] p show ?thesis by blast
qed

theorem getMatchingPairs_spec_witness:
  "getMatchingPairs ex_done = Some (pair_list ex_done) \<and> getMatchingPairs ex_graph = Some []"
  using getMatchingPairs_spec[OF ex_engine_done] getMatchingPairs_spec[OF ex_engine] ex_addEdges
  by blast

section \<open>The size of the matching\<close>






section \<open>The values the layering pass writes\<close>

text \<open>
  To speak of the distances the queue loop assigns (the line
  \<^verbatim>\<open>dist[pairV[v]] = dist[u] + 1\<close>), and not only of those that can still be read at
  the end, the two functions below follow the control flow of \<open>bfs_scan\<close> and
  \<open>bfs_while\<close> and collect, in order, the value of every such assignment. They are
  not part of the program.
\<close>

fun scan_writes :: "BipartiteGraph \<Rightarrow> nat \<Rightarrow> nat list \<Rightarrow> nat list option" where
  "scan_writes g u [] = Some []"
| "scan_writes g u (v # vs) = do {
     w \<leftarrow> idx (pairV g) v;
     dw \<leftarrow> idx (dist g) w;
     if dw = INF_const then do {
       du \<leftarrow> idx (dist g) u;
       d \<leftarrow> upd (dist g) w (du + 1);
       ws \<leftarrow> scan_writes (g\<lparr>dist := d\<rparr>) u vs;
       Some ((du + 1) # ws)
     } else scan_writes g u vs
   }"








section \<open>A long path: where \<open>INF_const\<close> is too small\<close>

text \<open>
  The claims C1, C8 and C9 hold below \<open>INF_const\<close> left vertices and fail at
  \<open>INF_const\<close>. The input that shows it has \<open>n\<close> vertices on each side and the edges of
  a path; it is far too large to run, so its run is derived step by step for any \<open>n\<close>.
  An engine with \<open>n\<close> vertices on each side is written with its vectors as functions of
  the index.
\<close>

definition mk :: "nat \<Rightarrow> (nat \<Rightarrow> nat list) \<Rightarrow> (nat \<Rightarrow> nat) \<Rightarrow> (nat \<Rightarrow> nat) \<Rightarrow> (nat \<Rightarrow> nat) \<Rightarrow> BipartiteGraph" where
  "mk n a d pu pv =
     \<lparr> nLeft = n, nRight = n, adj = map a [0..<Suc n], dist = map d [0..<Suc n],
       pairU = map pu [0..<Suc n], pairV = map pv [0..<Suc n] \<rparr>"

lemma mk_sel [simp]:
  "nLeft (mk n a d pu pv) = n" "nRight (mk n a d pu pv) = n"
  by (simp_all add: mk_def)




lemma mk_pair_update [simp]:
  "mk n a d pu pv\<lparr>pairU := map pu' [0..<Suc n]\<rparr> = mk n a d pu' pv"
  "mk n a d pu pv\<lparr>pairV := map pv' [0..<Suc n]\<rparr> = mk n a d pu pv'"
  by (simp_all add: mk_def)




subsection \<open>Feeding the edges\<close>








subsection \<open>Scans and pops that write nothing\<close>


lemma scan_writes_idle:
  "\<forall>v\<in>set vs. \<exists>w dw. idx (pairV g) v = Some w \<and> idx (dist g) w = Some dw \<and> dw \<noteq> INF_const \<Longrightarrow>
   scan_writes g u vs = Some []"
  by (induction vs) auto


subsection \<open>The first layering pass, with no vertex matched\<close>



subsection \<open>Searches that succeed at once, and searches that find nothing\<close>







subsection \<open>The path\<close>





















subsection \<open>Single steps of the layering pass\<close>









subsection \<open>The second layering pass on the path with the extra edge\<close>









subsection \<open>The runs of maxMatching on the two paths\<close>















subsection \<open>The two paths as sequences of calls\<close>










subsection \<open>The claims that fail there\<close>




end
